theory Spec2Isabelle
  imports Complex_Main "HOL-Library.Word" "HOL-Library.Multiset"
begin

section \<open>Data model of \<open>room_model.h\<close>\<close>

text \<open>
  A \<open>float\<close> or \<open>double\<close> of the source (coordinates, normals, offsets, balance scores, the
  splitting threshold) is the real number it denotes; NaN, the infinities and negative zero
  are left out. Comparisons of doubles are then comparisons of reals. An arithmetic
  operation on doubles is the exact operation followed by the rounding to a double, and
  that rounding is a parameter of the model (see \<open>platform\<close> below).
  Wall pointers (\<open>rts::wall*\<close>) are indices into a list of wall objects (the store);
  a pointer is valid when it is below the length of the store.
\<close>

type_synonym Point = "real \<times> real \<times> real"

text \<open>The kernel's plane, as \<open>construct_polygonspatial_model\<close> builds it: the three
  components of the normal and the offset.\<close>

type_synonym Plane = "real \<times> real \<times> real \<times> real"

text \<open>
  Modelled from the spec: the wall type (\<open>wall.h\<close> is not among the sources). The fields are
  the ones \<open>room_model.h\<close> reads and writes: \<open>id\<close> (here \<open>ident\<close>), \<open>corners\<close>, the normal \<open>n\<close>
  (an \<open>fvec3\<close>), the offset \<open>d\<close>, \<open>material\<close>, \<open>enabled\<close>, \<open>parent_id\<close>, \<open>parent\<close>,
  \<open>plane_polygon_map_id\<close>, \<open>direct_reflectables\<close> and the force-loaded flag. The walls'
  blocking-candidate state is left out.
\<close>

record wall =
  ident :: int
  corners :: "Point list"
  wall_n :: "real \<times> real \<times> real"
  wall_d :: real
  material :: nat
  enabled :: bool
  force_loaded :: bool
  parent_id :: int
  parent :: "nat option"
  plane_polygon_map_id :: int
  direct_reflectables :: "nat list"

text \<open>
  Faults: \<open>out_of_range\<close> is the exception \<open>std::out_of_range\<close> that \<open>vector::at\<close> throws;
  \<open>undefined_access\<close> is an unchecked access outside a vector (\<open>operator[]\<close>), which the
  source does not guard.
\<close>

datatype fault = out_of_range | undefined_access

section \<open>The geometric kernel\<close>

text \<open>
  The kernel (Graphics Gems V, chapter 7-4) is not among the sources. Its polygon is taken
  as the ring of the source points of its edges, from \<open>first()\<close> on (\<open>nPoints()\<close> is the
  length of the ring, and a polygon has at least one edge), the parent id and the plane.
  Its two operations are parameters of the model: the three-way classification
  \<open>plane.whichSide(point)\<close>, and \<open>split(polygon, plane, above, on, below)\<close>, which adds
  the parts of the polygon to the three lists.
\<close>

datatype Where = ABOVE | ON | BELOW

record PolygonSpatial =
  points :: "Point list"
  m_parentID :: int
  plane :: Plane

type_synonym whichSide_fn = "Plane \<Rightarrow> Point \<Rightarrow> Where"

type_synonym buckets = "PolygonSpatial list \<times> PolygonSpatial list \<times> PolygonSpatial list"

type_synonym split_fn = "PolygonSpatial \<Rightarrow> Plane \<Rightarrow> buckets \<Rightarrow> buckets"

section \<open>\<open>disable_selected_walls\<close>\<close>

text \<open>
  \<^verbatim>\<open>for (auto ident : walls_to_disable) walls.at(ident).enabled = false;\<close>
  The indices are \<open>unsigned int\<close>. The vector is passed by reference, so the walls disabled
  before a throw stay disabled: the result is the vector as left, and the fault if one was
  thrown.
\<close>

fun disable_selected_walls :: "32 word list \<Rightarrow> wall list \<Rightarrow> wall list \<times> fault option" where
  "disable_selected_walls [] walls = (walls, None)"
| "disable_selected_walls (i # walls_to_disable) walls =
     (if unat i < length walls
      then disable_selected_walls walls_to_disable
             (walls[unat i := (walls ! unat i)\<lparr>enabled := False\<rparr>])
      else (walls, Some out_of_range))"

section \<open>\<open>create_plane_polygon_map\<close>\<close>

text \<open>
  The state the mapper works on: the store of wall objects and the member
  \<open>plane_polygon_map\<close>, a vector of groups of wall pointers. The mapper never clears the
  member: it appends to whatever the map already holds.
\<close>

type_synonym mapper_state = "wall list \<times> nat list list"

definition signbit :: "real \<Rightarrow> bool" where
  "signbit x = (x < 0)"

text \<open>
  The coplanarity test of the inner loop, between the first wall \<open>g\<close> of a group and
  \<open>one_wall\<close>: the three components of the normals are equal and of equal sign bit, and
  the offsets are equal.
\<close>

definition same_normal :: "wall \<Rightarrow> wall \<Rightarrow> bool" where
  "same_normal g one_wall =
     (case (wall_n g, wall_n one_wall) of
        ((g0, g1, g2), (w0, w1, w2)) \<Rightarrow>
          (g0 = w0 \<and> signbit w0 = signbit g0) \<and>
          (g1 = w1 \<and> signbit w1 = signbit g1) \<and>
          (g2 = w2 \<and> signbit w2 = signbit g2) \<and>
          wall_d one_wall = wall_d g)"

definition set_plane_polygon_map_id :: "nat \<Rightarrow> int \<Rightarrow> wall list \<Rightarrow> wall list" where
  "set_plane_polygon_map_id p v heap = heap[p := (heap ! p)\<lparr>plane_polygon_map_id := v\<rparr>]"

text \<open>
  The loop \<^verbatim>\<open>for (int i = 0; i < plane_polygon_map.size(); i++)\<close> for one enabled wall.
  Its bound is read again at every iteration, and the body may grow the map: after the
  \<open>push_back\<close> of a new group at the last index the loop goes on to that new group, whose
  first wall is \<open>one_wall\<close> itself, and leaves it by the \<open>continue\<close> on equal ids.
  Reading the first wall of an empty group is an unguarded access.
\<close>

function group_loop :: "nat \<Rightarrow> nat \<Rightarrow> mapper_state \<Rightarrow> fault + mapper_state" where
  "group_loop one_wall i (heap, ppm) =
     (if i < length ppm then
        (case ppm ! i of
           [] \<Rightarrow> Inl undefined_access
         | g # _ \<Rightarrow>
             if ident (heap ! one_wall) = ident (heap ! g)
             then group_loop one_wall (i + 1) (heap, ppm)
             else if same_normal (heap ! g) (heap ! one_wall)
             then Inr (set_plane_polygon_map_id one_wall (int i) heap,
                       ppm[i := ppm ! i @ [one_wall]])
             else if i = length ppm - 1
             then group_loop one_wall (i + 1)
                    (set_plane_polygon_map_id one_wall (int i + 1) heap, ppm @ [[one_wall]])
             else group_loop one_wall (i + 1) (heap, ppm))
      else Inr (heap, ppm))"
  by pat_completeness auto
termination
proof (relation "measure (\<lambda>(one_wall, i, heap, ppm).
          2 * (length ppm - i) +
          (if i < length ppm \<and>
              (case ppm ! i of [] \<Rightarrow> False
               | g # _ \<Rightarrow> ident (heap ! one_wall) \<noteq> ident (heap ! g))
           then 1 else 0))", goal_cases)
  case 1
  show ?case by simp
next
  case (2 one_wall i heap ppm g gs)
  then show ?case by (auto split: list.splits)
next
  case (3 one_wall i heap ppm g gs)
  then show ?case
    by (auto simp: nth_append set_plane_polygon_map_id_def split: list.splits)
next
  case (4 one_wall i heap ppm g gs)
  then show ?case by (auto split: list.splits)
qed

declare group_loop.simps [simp del]

text \<open>The loop over the sorted walls; a disabled wall is skipped.\<close>

fun wall_loop :: "nat list \<Rightarrow> mapper_state \<Rightarrow> fault + mapper_state" where
  "wall_loop [] st = Inr st"
| "wall_loop (one_wall # rest) st =
     (if \<not> enabled (fst st ! one_wall) then wall_loop rest st
      else (case group_loop one_wall 0 st of
              Inl e \<Rightarrow> Inl e
            | Inr st' \<Rightarrow> wall_loop rest st'))"

text \<open>
  \<open>create_plane_polygon_map\<close>: sort the pointers by wall id (\<open>std::sort\<close>, taken here as
  the stable insertion sort \<open>sort_key\<close>; with pairwise distinct ids every sort gives the same
  order), push the group of \<open>walls_to_check[0]\<close> (an unguarded read: on the empty vector
  there is no such element), set the group id of \<open>plane_polygon_map[0][0]\<close> to 0, then
  run the loop over the walls.
\<close>

definition create_plane_polygon_map :: "nat list \<Rightarrow> mapper_state \<Rightarrow> fault + mapper_state" where
  "create_plane_polygon_map walls_to_check st =
     (case sort_key (\<lambda>p. ident (fst st ! p)) walls_to_check of
        [] \<Rightarrow> Inl undefined_access
      | w0 # rest \<Rightarrow>
          (case hd (snd st @ [[w0]]) of
             [] \<Rightarrow> Inl undefined_access
           | g # _ \<Rightarrow>
               wall_loop (w0 # rest)
                 (set_plane_polygon_map_id g 0 (fst st), snd st @ [[w0]])))"

section \<open>The blocks of \<open>set_up_room_model\<close>\<close>

subsection \<open>Harmonising the identifiers\<close>

text \<open>
  \<^verbatim>\<open>for (auto& j : pwalls_BSP) if (j->parent_id == i) {
      j->setID(j->parent_id * 1000 + monotone_id_increment); monotone_id_increment++; }\<close>
  for one original wall index \<open>i\<close>. Ids are the spec's integers, unbounded here.
\<close>

fun harmonise_parent :: "int \<Rightarrow> nat list \<Rightarrow> int \<Rightarrow> wall list \<Rightarrow> wall list" where
  "harmonise_parent i [] monotone_id_increment heap = heap"
| "harmonise_parent i (j # pwalls_BSP) monotone_id_increment heap =
     (if parent_id (heap ! j) = i
      then harmonise_parent i pwalls_BSP (monotone_id_increment + 1)
             (heap[j := (heap ! j)\<lparr>ident := parent_id (heap ! j) * 1000 + monotone_id_increment\<rparr>])
      else harmonise_parent i pwalls_BSP monotone_id_increment heap)"

text \<open>The outer loop \<^verbatim>\<open>for (int i = 0; i < walls.size(); i++)\<close>, from index \<open>i\<close> on.\<close>

fun harmonise_from :: "nat \<Rightarrow> nat \<Rightarrow> nat list \<Rightarrow> wall list \<Rightarrow> wall list" where
  "harmonise_from 0 i pwalls_BSP heap = heap"
| "harmonise_from (Suc todo) i pwalls_BSP heap =
     harmonise_from todo (Suc i) pwalls_BSP (harmonise_parent (int i) pwalls_BSP 0 heap)"

definition harmonise_identifiers :: "nat \<Rightarrow> nat list \<Rightarrow> wall list \<Rightarrow> wall list" where
  "harmonise_identifiers walls_size pwalls_BSP heap = harmonise_from walls_size 0 pwalls_BSP heap"

subsection \<open>Unifying the directly reflectable walls\<close>

text \<open>
  For one entry \<open>i\<close> of the plane-polygon map: concatenate the members'
  \<open>direct_reflectables\<close>, \<open>std::sort\<close> them (pointers, ordered as addresses), drop adjacent
  duplicates with \<open>std::unique\<close> and cut the vector there.
\<close>

definition direct_reflectables_united :: "wall list \<Rightarrow> nat list \<Rightarrow> nat list" where
  "direct_reflectables_united heap i =
     remdups_adj (sort (concat (map (\<lambda>k. direct_reflectables (heap ! k)) i)))"

text \<open>
  The loop over the entries: the united vector is assigned to \<open>i[0]\<close>, the first wall of the
  entry (an unguarded read on an empty entry).
\<close>

fun unify_direct_reflectables :: "nat list list \<Rightarrow> wall list \<Rightarrow> fault + wall list" where
  "unify_direct_reflectables [] heap = Inr heap"
| "unify_direct_reflectables (i # plane_polygon_map) heap =
     (case i of
        [] \<Rightarrow> Inl undefined_access
      | i0 # _ \<Rightarrow>
          unify_direct_reflectables plane_polygon_map
            (heap[i0 := (heap ! i0)\<lparr>direct_reflectables := direct_reflectables_united heap i\<rparr>]))"

subsection \<open>Sequence numbers within a parent\<close>

text \<open>
  The spec's sequence-within-parent of the \<open>m\<close>-th produced wall: the number of walls
  before it in \<open>pwalls_BSP\<close> (production order) that have the same parent id.
\<close>

definition sequence_within_parent :: "wall list \<Rightarrow> nat list \<Rightarrow> nat \<Rightarrow> nat" where
  "sequence_within_parent heap pwalls_BSP m =
     length (filter (\<lambda>q. parent_id (heap ! q) = parent_id (heap ! (pwalls_BSP ! m)))
               (take m pwalls_BSP))"

section \<open>Well-formed plane-polygon maps\<close>

text \<open>Every group of the map has a first wall. The empty map of a fresh \<open>room_model\<close> is
  of this kind, and the mapper keeps maps so.\<close>

definition groups_nonempty :: "nat list list \<Rightarrow> bool" where
  "groups_nonempty ppm = list_all (\<lambda>g. g \<noteq> []) ppm"

section \<open>The spatial adapter\<close>

text \<open>
  \<open>construct_polygonspatial_model\<close>: the loop over the walls, with the vector
  \<open>polygonVec\<close> it pushes to. Only an enabled wall is pushed, as
  \<^verbatim>\<open>new PolygonSpatial(pointVec, (int)i.id, i.n.at(0), i.n.at(1), i.n.at(2), i.d)\<close>.
\<close>

definition polygon_of_wall :: "wall \<Rightarrow> PolygonSpatial" where
  "polygon_of_wall i =
     \<lparr>points = corners i, m_parentID = ident i,
      plane = (case wall_n i of (n0, n1, n2) \<Rightarrow> (n0, n1, n2, wall_d i))\<rparr>"

fun polygonspatial_loop :: "PolygonSpatial list \<Rightarrow> wall list \<Rightarrow> PolygonSpatial list" where
  "polygonspatial_loop polygonVec [] = polygonVec"
| "polygonspatial_loop polygonVec (i # polygons) =
     (if enabled i then polygonspatial_loop (polygonVec @ [polygon_of_wall i]) polygons
      else polygonspatial_loop polygonVec polygons)"

definition construct_polygonspatial_model :: "wall list \<Rightarrow> PolygonSpatial list" where
  "construct_polygonspatial_model polygons = polygonspatial_loop [] polygons"

text \<open>
  \<open>construct_rtswall_model\<close>, with the member \<open>walls\<close> (the original walls) it reads at
  index \<open>m_parentID\<close>, an unguarded access. The counter \<open>id\<close> of the source is never
  incremented (the statement \<open>i++\<close> at the end of the loop body advances the loop's
  reference, not \<open>id\<close>), so the id of every new wall is \<open>m_parentID * 10000 + 0\<close>.
  Modelled from the spec: the wall constructor (\<open>wall.h\<close> is not among the sources); its two
  flags \<open>true, true\<close> are taken as the enabled and the force-loaded flag, and a new wall
  has group id 0 and no directly reflectable walls.
\<close>

definition new_wall :: "wall list \<Rightarrow> PolygonSpatial \<Rightarrow> wall" where
  "new_wall walls i =
     \<lparr>ident = m_parentID i * 10000 + 0, corners = points i,
      wall_n = wall_n (walls ! nat (m_parentID i)), wall_d = wall_d (walls ! nat (m_parentID i)),
      material = material (walls ! nat (m_parentID i)), enabled = True, force_loaded = True,
      parent_id = m_parentID i, parent = Some (nat (m_parentID i)),
      plane_polygon_map_id = 0, direct_reflectables = []\<rparr>"

fun rtswall_loop :: "wall list \<Rightarrow> wall list \<Rightarrow> PolygonSpatial list \<Rightarrow> fault + wall list" where
  "rtswall_loop walls wall_model [] = Inr wall_model"
| "rtswall_loop walls wall_model (i # polygons) =
     (if 0 \<le> m_parentID i \<and> m_parentID i < int (length walls)
      then rtswall_loop walls (wall_model @ [new_wall walls i]) polygons
      else Inl undefined_access)"

definition construct_rtswall_model :: "wall list \<Rightarrow> PolygonSpatial list \<Rightarrow> fault + wall list" where
  "construct_rtswall_model walls polygons = rtswall_loop walls [] polygons"

section \<open>\<open>build_BSP\<close>\<close>

text \<open>
  The vector \<open>polygons\<close> holds pointers to polygons that are pairwise distinct objects, so
  the test \<open>i == j\<close> of the loops is the equality of the two positions in the vector.
\<close>

definition behind_of :: "whichSide_fn \<Rightarrow> PolygonSpatial \<Rightarrow> PolygonSpatial \<Rightarrow> bool" where
  "behind_of W i j = list_ex (\<lambda>p. W (plane i) p = BELOW) (points j)"

definition in_front_of :: "whichSide_fn \<Rightarrow> PolygonSpatial \<Rightarrow> PolygonSpatial \<Rightarrow> bool" where
  "in_front_of W i j = list_ex (\<lambda>p. W (plane i) p = ABOVE) (points j)"

text \<open>The convexity test: no source point of a polygon is \<open>BELOW\<close> the plane of another.\<close>

definition subspace_convex :: "whichSide_fn \<Rightarrow> PolygonSpatial list \<Rightarrow> bool" where
  "subspace_convex W polygons =
     list_all (\<lambda>i. list_all (\<lambda>j. if i = j then True
                                   else \<not> behind_of W (polygons ! i) (polygons ! j))
                      [0..<length polygons])
       [0..<length polygons]"

text \<open>
  The table \<open>measures\<close>: for the candidate \<open>temp_id\<close> the numbers of other polygons that are
  behind its plane, in front of it (a polygon lying on the plane counts here) and crossing
  it. The four \<open>if\<close>s of the source, in their order:
\<close>

definition tally :: "bool \<Rightarrow> bool \<Rightarrow> nat \<times> int \<times> int \<times> int \<Rightarrow> nat \<times> int \<times> int \<times> int" where
  "tally behind in_front m =
     (case m of (temp_id, b, f, c) \<Rightarrow>
        (temp_id,
         (if behind \<and> \<not> in_front then b + 1 else b),
         (if \<not> behind \<and> in_front then f + 1 else f) +
           (if \<not> behind \<and> \<not> in_front then 1 else 0),
         (if behind \<and> in_front then c + 1 else c)))"

definition measures :: "whichSide_fn \<Rightarrow> PolygonSpatial list \<Rightarrow> (nat \<times> int \<times> int \<times> int) list" where
  "measures W polygons =
     map (\<lambda>i. fold (\<lambda>j m. if i = j then m
                         else tally (behind_of W (polygons ! i) (polygons ! j))
                                (in_front_of W (polygons ! i) (polygons ! j)) m)
                 [0..<length polygons] (i, 0, 0, 0))
       [0..<length polygons]"

text \<open>
  What the source leaves to the C++ implementation it is built with:
  \<^item> \<open>std::sort(first, last, comp)\<close> on a table of (id, score, crosses). Its contract is
    a sorted permutation; the order of entries that \<open>comp\<close> does not separate is not
    specified, and differs between implementations and table lengths;
  \<^item> the rounding of a real number to a \<open>double\<close>, applied after a division or a
    subtraction of doubles;
  \<^item> the function the unqualified call \<open>abs(...)\<close> on a \<open>double\<close> resolves to (the absolute
    value of a double, or the one of \<open>int\<close> after a conversion, by the headers in scope).
\<close>

type_synonym entry = "nat \<times> real \<times> int"

record platform =
  std_sort :: "(entry \<Rightarrow> entry \<Rightarrow> bool) \<Rightarrow> entry list \<Rightarrow> entry list"
  round_double :: "real \<Rightarrow> real"
  abs_call :: "real \<Rightarrow> real"

text \<open>The balance score, with its explicit branches for a zero count. The counts are
  \<open>int\<close>s, which convert to \<open>double\<close> exactly; each quotient is rounded.\<close>

definition balance :: "platform \<Rightarrow> int \<Rightarrow> int \<Rightarrow> real" where
  "balance P behind in_front =
     (if behind = 0 then 0
      else if in_front = 0 then 0
      else min (round_double P (real_of_int behind / real_of_int in_front))
               (round_double P (real_of_int in_front / real_of_int behind)))"

definition r_p :: "platform \<Rightarrow> (nat \<times> int \<times> int \<times> int) list \<Rightarrow> entry list" where
  "r_p P ms = map (\<lambda>(temp_id, behind, in_front, crosses).
                     (temp_id, balance P behind in_front, crosses)) ms"

text \<open>The two comparison functions handed to \<open>std::sort\<close>: by crosses (line 223) and by
  the second component (line 242).\<close>

definition by_crosses :: "entry \<Rightarrow> entry \<Rightarrow> bool" where
  "by_crosses x y = (snd (snd x) < snd (snd y))"

definition by_b :: "entry \<Rightarrow> entry \<Rightarrow> bool" where
  "by_b x y = (fst (snd x) < fst (snd y))"

text \<open>The deviation \<open>abs(b - threshold)\<close> as the code computes it, and the loop that
  replaces every score of the table by its deviation.\<close>

definition deviation :: "platform \<Rightarrow> real \<Rightarrow> real \<Rightarrow> real" where
  "deviation P threshold b = abs_call P (round_double P (b - threshold))"

definition deviations :: "platform \<Rightarrow> real \<Rightarrow> entry list \<Rightarrow> entry list" where
  "deviations P threshold table =
     map (\<lambda>(temp_id, b, crosses). (temp_id, deviation P threshold b, crosses)) table"

text \<open>
  The choice of \<open>wall_id\<close> from the table \<open>r_p\<close> of (id, score, crosses): sort by crosses,
  take the first entry whose score is at least the threshold; when there is none
  (\<open>wall_id == -1\<close>), replace every score by its deviation, sort the (already sorted) table
  by that and take \<open>r_p.front()\<close>, an unguarded access.
\<close>

definition select_wall_id :: "platform \<Rightarrow> real \<Rightarrow> entry list \<Rightarrow> fault + nat" where
  "select_wall_id P threshold table =
     (case List.find (\<lambda>(temp_id, b, crosses). b \<ge> threshold)
             (std_sort P by_crosses table) of
        Some (temp_id, b, crosses) \<Rightarrow> Inr temp_id
      | None \<Rightarrow>
          (case std_sort P by_b (deviations P threshold (std_sort P by_crosses table)) of
             [] \<Rightarrow> Inl undefined_access
           | (temp_id, b, crosses) # _ \<Rightarrow> Inr temp_id))"

text \<open>The loop that splits every polygon but the partition wall by its plane.\<close>

definition split_all :: "split_fn \<Rightarrow> PolygonSpatial list \<Rightarrow> nat \<Rightarrow> buckets" where
  "split_all S polygons wall_id =
     fold (\<lambda>i lists. if i = wall_id then lists
                      else S (polygons ! i) (plane (polygons ! wall_id)) lists)
       [0..<length polygons] ([], [], [])"

text \<open>
  A node holds its walls, its two children \<open>front\<close> and \<open>back\<close> (here \<open>front_node\<close>
  and \<open>back_node\<close>; either may be absent) and the leaf flag. The
  walls a node holds are created by \<open>construct_rtswall_model\<close> for this node; of the fields
  modelled here none is written again before \<open>build_BSP\<close> returns, so the node and the
  accumulator \<open>new_walls\<close> hold the walls themselves. The helpers
  \<open>update_blockable_walls\<close>, \<open>init_wall_state\<close> and \<open>sort_blockables_by_dist\<close> are not
  among the sources; by the spec they set up the blocking-candidate state of the walls,
  which is left out.
\<close>

datatype BSPNode =
  BSPNode (node_walls: "wall list") (front_node: "BSPNode option")
    (back_node: "BSPNode option") (leaf_node: bool)

text \<open>
  \<open>build_BSP\<close>. The recursion of the source ends when the kernel's split leaves fewer
  polygons on each side; with the kernel a parameter, the model counts the depth of the
  recursion down from \<open>fuel\<close>, and \<open>None\<close> is a recursion deeper than that. The read
  \<open>polygons[wall_id]\<close> is unguarded. The front
  subtree is built before the back subtree (the order of a braced initialiser list), both
  with the same accumulator.
\<close>

fun build_BSP ::
  "whichSide_fn \<Rightarrow> split_fn \<Rightarrow> platform \<Rightarrow> nat \<Rightarrow> wall list \<Rightarrow> PolygonSpatial list \<Rightarrow>
     wall list \<Rightarrow> real \<Rightarrow> (fault + BSPNode option \<times> wall list) option" where
  "build_BSP W S P 0 walls polygons new_walls threshold = None"
| "build_BSP W S P (Suc fuel) walls polygons new_walls threshold =
     (if polygons = [] then Some (Inr (None, new_walls))
      else if subspace_convex W polygons then
        (case construct_rtswall_model walls polygons of
           Inl e \<Rightarrow> Some (Inl e)
         | Inr leaf_walls \<Rightarrow>
             Some (Inr (Some (BSPNode leaf_walls None None True), new_walls @ leaf_walls)))
      else
        (case select_wall_id P threshold (r_p P (measures W polygons)) of
           Inl e \<Rightarrow> Some (Inl e)
         | Inr wall_id \<Rightarrow>
             if \<not> wall_id < length polygons then Some (Inl undefined_access)
             else
             (case split_all S polygons wall_id of
                (above_polys, on_list, below_polys) \<Rightarrow>
                  (case construct_rtswall_model walls (polygons ! wall_id # on_list) of
                     Inl e \<Rightarrow> Some (Inl e)
                   | Inr sortedWalls \<Rightarrow>
                       (case build_BSP W S P fuel walls above_polys new_walls threshold of
                          None \<Rightarrow> None
                        | Some (Inl e) \<Rightarrow> Some (Inl e)
                        | Some (Inr (front_tree, new_walls1)) \<Rightarrow>
                            (case build_BSP W S P fuel walls below_polys new_walls1 threshold of
                               None \<Rightarrow> None
                             | Some (Inl e) \<Rightarrow> Some (Inl e)
                             | Some (Inr (back_tree, new_walls2)) \<Rightarrow>
                                 Some (Inr (Some (BSPNode sortedWalls front_tree back_tree False),
                                            new_walls2 @ sortedWalls))))))))"

declare build_BSP.simps [simp del]

text \<open>All the walls held by the nodes of a tree.\<close>

fun tree_walls :: "BSPNode \<Rightarrow> wall list" where
  "tree_walls (BSPNode ws f b l) =
     ws @ (case f of None \<Rightarrow> [] | Some n \<Rightarrow> tree_walls n)
        @ (case b of None \<Rightarrow> [] | Some n \<Rightarrow> tree_walls n)"

text \<open>\<open>traverseTree\<close>: the height of the tree.\<close>

fun traverseTree :: "BSPNode option \<Rightarrow> int" where
  "traverseTree None = 0"
| "traverseTree (Some (BSPNode ws f b l)) =
     (if traverseTree f \<ge> traverseTree b then traverseTree f + 1 else traverseTree b + 1)"

section \<open>The ranking of the candidates, in the spec's words\<close>

text \<open>The balance score and the cross-count of the candidate at position \<open>j\<close> of
  \<open>polygons\<close>, as the table \<open>r_p\<close> holds them.\<close>

definition balance_score :: "whichSide_fn \<Rightarrow> platform \<Rightarrow> PolygonSpatial list \<Rightarrow> nat \<Rightarrow> real" where
  "balance_score W P polygons j = fst (snd (r_p P (measures W polygons) ! j))"

definition cross_count :: "whichSide_fn \<Rightarrow> platform \<Rightarrow> PolygonSpatial list \<Rightarrow> nat \<Rightarrow> int" where
  "cross_count W P polygons j = snd (snd (r_p P (measures W polygons) ! j))"

section \<open>The contract of \<open>std::sort\<close>\<close>

text \<open>
  After \<open>std::sort(first, last, comp)\<close> the range holds the same entries and no entry is
  \<open>comp\<close>-less than an entry before it.
\<close>

definition sorts_by :: "platform \<Rightarrow> (entry \<Rightarrow> entry \<Rightarrow> bool) \<Rightarrow> bool" where
  "sorts_by P lt =
     (\<forall>table. mset (std_sort P lt table) = mset table \<and>
              sorted_wrt (\<lambda>x y. \<not> lt y x) (std_sort P lt table))"

text \<open>
  The two calls of \<open>std::sort\<close> in the choice of the splitting plane leave tied entries in
  the order they had: each gives what the stable \<open>sort_key\<close> gives on the same table. An
  insertion sort does; \<open>std::sort\<close> in general need not.
\<close>

definition keeps_ties :: "platform \<Rightarrow> real \<Rightarrow> entry list \<Rightarrow> bool" where
  "keeps_ties P threshold table =
     (std_sort P by_crosses table = sort_key (\<lambda>e. snd (snd e)) table \<and>
      std_sort P by_b (deviations P threshold (std_sort P by_crosses table)) =
        sort_key (\<lambda>e. fst (snd e)) (deviations P threshold (std_sort P by_crosses table)))"


section \<open>Assumption on the kernel's split\<close>

text \<open>
  The polygons a call of \<open>split\<close> adds to the three lists are parts of the polygon it
  splits: they carry its parent id.
\<close>

definition bucket_polys :: "buckets \<Rightarrow> PolygonSpatial list" where
  "bucket_polys bk = fst bk @ fst (snd bk) @ snd (snd bk)"

definition split_keeps_parent :: "split_fn \<Rightarrow> bool" where
  "split_keeps_parent S =
     (\<forall>p pl bk. m_parentID ` set (bucket_polys (S p pl bk)) \<subseteq>
                   insert (m_parentID p) (m_parentID ` set (bucket_polys bk)))"


section \<open>A kernel and rooms for concrete runs\<close>

text \<open>
  Modelled from the spec: an exact three-way classification of a point against a plane, by
  the sign of \<open>n \<cdot> p + d\<close>. The split used in the concrete runs does not cut: a polygon
  with points on both sides goes whole to both lists.
\<close>

definition whichSide_exact :: whichSide_fn where
  "whichSide_exact pl p =
     (case pl of (a, b, c, d) \<Rightarrow> case p of (x, y, z) \<Rightarrow>
        (if a * x + b * y + c * z + d > 0 then ABOVE
         else if a * x + b * y + c * z + d < 0 then BELOW else ON))"

definition split_whole :: "whichSide_fn \<Rightarrow> split_fn" where
  "split_whole W p pl bk =
     (case bk of (above_list, on_list, below_list) \<Rightarrow>
        if list_ex (\<lambda>q. W pl q = BELOW) (points p) \<and> list_ex (\<lambda>q. W pl q = ABOVE) (points p)
        then (above_list @ [p], on_list, below_list @ [p])
        else if list_ex (\<lambda>q. W pl q = ABOVE) (points p) then (above_list @ [p], on_list, below_list)
        else if list_ex (\<lambda>q. W pl q = BELOW) (points p) then (above_list, on_list, below_list @ [p])
        else (above_list, on_list @ [p], below_list))"

text \<open>
  The platform of the concrete runs. Their tables have two or three entries, on which
  \<open>std::sort\<close> is an insertion sort; every number in them is a small integer, which
  rounding leaves as it is and of which both resolutions of \<open>abs\<close> give the absolute value.
\<close>

fun insert_by :: "('a \<Rightarrow> 'a \<Rightarrow> bool) \<Rightarrow> 'a \<Rightarrow> 'a list \<Rightarrow> 'a list" where
  "insert_by lt x [] = [x]"
| "insert_by lt x (y # ys) = (if lt y x then y # insert_by lt x ys else x # y # ys)"

definition insertion_sort :: "('a \<Rightarrow> 'a \<Rightarrow> bool) \<Rightarrow> 'a list \<Rightarrow> 'a list" where
  "insertion_sort lt xs = foldr (insert_by lt) xs []"

definition small_table_platform :: platform where
  "small_table_platform =
     \<lparr>std_sort = insertion_sort, round_double = (\<lambda>x. x), abs_call = (\<lambda>x. \<bar>x\<bar>)\<rparr>"

text \<open>A wall with a given id, enabled flag, normal, offset, parent id and
  directly-reflectable walls.\<close>

definition fixture_wall ::
  "int \<Rightarrow> bool \<Rightarrow> real \<times> real \<times> real \<Rightarrow> real \<Rightarrow> int \<Rightarrow> nat list \<Rightarrow> wall" where
  "fixture_wall i e nv dv p dr =
     \<lparr>ident = i, corners = [], wall_n = nv, wall_d = dv, material = 0, enabled = e,
      force_loaded = False, parent_id = p, parent = None, plane_polygon_map_id = 0,
      direct_reflectables = dr\<rparr>"

text \<open>The same with corners, its parent id its own id.\<close>

definition room_wall :: "int \<Rightarrow> bool \<Rightarrow> real \<times> real \<times> real \<Rightarrow> real \<Rightarrow> Point list \<Rightarrow> wall" where
  "room_wall i e nv dv cs = (fixture_wall i e nv dv i [])\<lparr>corners := cs\<rparr>"

text \<open>
  Three walls: wall 1 crosses the plane of wall 0 and wall 2 lies in front of it; walls 0
  and 2 lie in front of the plane of wall 1; walls 0 and 1 lie behind the plane of wall 2.
\<close>

definition tie_room :: "wall list" where
  "tie_room =
     [room_wall 0 True (1, 0, 0) 0 [(0, 1, 0), (0, 2, 0), (0, 1, 1)],
      room_wall 1 True (0, 1, 0) 0 [(-1, 0, 0), (1, 0, 0), (0, 0, 1)],
      room_wall 2 True (1, 0, 0) (-5) [(5, 1, 0), (5, 2, 0), (5, 1, 1)]]"

text \<open>Three walls on the three coordinate planes, each crossing the planes of the other
  two.\<close>

definition crossing_room :: "wall list" where
  "crossing_room =
     [room_wall 0 True (1, 0, 0) 0 [(0, -1, -1), (0, 1, -1), (0, 0, 1)],
      room_wall 1 True (0, 1, 0) 0 [(-1, 0, -1), (1, 0, -1), (0, 0, 1)],
      room_wall 2 True (0, 0, 1) 0 [(-1, -1, 0), (1, -1, 0), (0, 1, 0)]]"

text \<open>The first room with a fourth wall, disabled.\<close>

definition sealed_room :: "wall list" where
  "sealed_room = tie_room @ [room_wall 3 False (0, 0, 1) 0 [(-1, 0, -3), (1, 0, -3), (0, 1, -3)]]"

text \<open>Two walls that face each other: each lies in front of the plane of the other.\<close>

definition facing_room :: "wall list" where
  "facing_room =
     [room_wall 0 True (0, 0, 1) 0 [(0, 0, 0), (1, 0, 0), (0, 1, 0)],
      room_wall 1 True (0, 0, -1) 1 [(0, 0, 1), (0, 1, 1), (1, 0, 1)]]"

section \<open>Properties of \<open>disable_selected_walls\<close>\<close>

lemma disable_selected_walls_length:
  "length (fst (disable_selected_walls ids walls)) = length walls"
  by (induction ids arbitrary: walls) auto

lemma disable_selected_walls_fault:
  "(snd (disable_selected_walls ids walls) = Some out_of_range) =
     (\<exists>i \<in> set ids. length walls \<le> unat i)"
  by (induction ids arbitrary: walls) (auto simp: not_less)

lemma disable_selected_walls_snd:
  "snd (disable_selected_walls ids walls) = None \<or>
   snd (disable_selected_walls ids walls) = Some out_of_range"
  by (induction ids arbitrary: walls) auto

lemma disable_selected_walls_keeps_disabled:
  "k < length walls \<Longrightarrow> \<not> enabled (walls ! k) \<Longrightarrow>
     \<not> enabled (fst (disable_selected_walls ids walls) ! k)"
proof (induction ids arbitrary: walls)
  case Nil
  then show ?case by simp
next
  case (Cons i ids)
  show ?case
  proof (cases "unat i < length walls")
    case True
    let ?ws = "walls[unat i := (walls ! unat i)\<lparr>enabled := False\<rparr>]"
    have "k < length ?ws" using Cons.prems by simp
    moreover have "\<not> enabled (?ws ! k)"
      using Cons.prems True by (cases "k = unat i") auto
    ultimately have "\<not> enabled (fst (disable_selected_walls ids ?ws) ! k)"
      by (rule Cons.IH)
    with True show ?thesis by simp
  next
    case False
    with Cons.prems show ?thesis by simp
  qed
qed

lemma disable_selected_walls_disables:
  "\<forall>i \<in> set ids. unat i < length walls \<Longrightarrow> j \<in> set ids \<Longrightarrow>
     \<not> enabled (fst (disable_selected_walls ids walls) ! unat j)"
proof (induction ids arbitrary: walls)
  case Nil
  then show ?case by simp
next
  case (Cons i ids)
  let ?ws = "walls[unat i := (walls ! unat i)\<lparr>enabled := False\<rparr>]"
  have inr: "unat i < length walls" using Cons.prems by simp
  have rest: "\<forall>i \<in> set ids. unat i < length ?ws" using Cons.prems by simp
  show ?case
  proof (cases "j \<in> set ids")
    case True
    with rest have "\<not> enabled (fst (disable_selected_walls ids ?ws) ! unat j)"
      by (rule Cons.IH)
    with inr show ?thesis by simp
  next
    case False
    with Cons.prems have ji: "j = i" by simp
    have "unat i < length ?ws" using inr by simp
    moreover have "\<not> enabled (?ws ! unat i)" using inr by simp
    ultimately have "\<not> enabled (fst (disable_selected_walls ids ?ws) ! unat i)"
      by (rule disable_selected_walls_keeps_disabled)
    with inr ji show ?thesis by simp
  qed
qed

lemma disable_selected_walls_stops:
  "\<forall>i \<in> set pre. unat i < length walls \<Longrightarrow> length walls \<le> unat b \<Longrightarrow>
     disable_selected_walls (pre @ b # post) walls =
       (fst (disable_selected_walls pre walls), Some out_of_range)"
proof (induction pre arbitrary: walls)
  case Nil
  then show ?case by simp
next
  case (Cons i pre)
  let ?ws = "walls[unat i := (walls ! unat i)\<lparr>enabled := False\<rparr>]"
  have "disable_selected_walls (pre @ b # post) ?ws =
          (fst (disable_selected_walls pre ?ws), Some out_of_range)"
    using Cons.prems by (intro Cons.IH) simp_all
  with Cons.prems show ?case by simp
qed

text \<open>
  C8. An index outside \<open>[0, wallCount)\<close> makes \<open>disable_selected_walls\<close> throw
  \<open>out_of_range\<close>, at the first such index and without looking at the indices after it
  (it is never skipped); when every index is in range nothing is thrown and the wall at
  each index has its enabled flag false.
\<close>

theorem disable_selected_walls_fail_fast:
  "((\<exists>i \<in> set ids. length walls \<le> unat i) \<longrightarrow>
      snd (disable_selected_walls ids walls) = Some out_of_range) \<and>
   ((\<forall>i \<in> set pre. unat i < length walls) \<and> length walls \<le> unat b \<longrightarrow>
      disable_selected_walls (pre @ b # post) walls =
        (fst (disable_selected_walls pre walls), Some out_of_range)) \<and>
   ((\<forall>i \<in> set ids. unat i < length walls) \<longrightarrow>
      snd (disable_selected_walls ids walls) = None \<and>
      length (fst (disable_selected_walls ids walls)) = length walls \<and>
      (\<forall>i \<in> set ids. \<not> enabled (fst (disable_selected_walls ids walls) ! unat i)))"
proof (intro conjI impI)
  assume "\<exists>i \<in> set ids. length walls \<le> unat i"
  then show "snd (disable_selected_walls ids walls) = Some out_of_range"
    by (simp add: disable_selected_walls_fault)
next
  assume "(\<forall>i \<in> set pre. unat i < length walls) \<and> length walls \<le> unat b"
  then show "disable_selected_walls (pre @ b # post) walls =
        (fst (disable_selected_walls pre walls), Some out_of_range)"
    by (simp add: disable_selected_walls_stops)
next
  assume a: "\<forall>i \<in> set ids. unat i < length walls"
  then have "\<not> (\<exists>i \<in> set ids. length walls \<le> unat i)" by (auto simp: not_le)
  then have "snd (disable_selected_walls ids walls) \<noteq> Some out_of_range"
    by (simp add: disable_selected_walls_fault)
  then show "snd (disable_selected_walls ids walls) = None"
    using disable_selected_walls_snd [of ids walls] by auto
  show "length (fst (disable_selected_walls ids walls)) = length walls"
    by (rule disable_selected_walls_length)
  show "\<forall>i \<in> set ids. \<not> enabled (fst (disable_selected_walls ids walls) ! unat i)"
    using a by (auto dest: disable_selected_walls_disables)
qed

theorem disable_selected_walls_fail_fast_witness:
  "snd (disable_selected_walls [1, 5]
          [fixture_wall 0 True (0, 0, 1) 0 0 [], fixture_wall 1 True (0, 0, 1) 0 1 []])
     = Some out_of_range \<and>
   disable_selected_walls ([1] @ 5 # [0])
          [fixture_wall 0 True (0, 0, 1) 0 0 [], fixture_wall 1 True (0, 0, 1) 0 1 []]
     = ([fixture_wall 0 True (0, 0, 1) 0 0 [], fixture_wall 1 False (0, 0, 1) 0 1 []],
        Some out_of_range) \<and>
   disable_selected_walls [1, 0]
          [fixture_wall 0 True (0, 0, 1) 0 0 [], fixture_wall 1 True (0, 0, 1) 0 1 []]
     = ([fixture_wall 0 False (0, 0, 1) 0 0 [], fixture_wall 1 False (0, 0, 1) 0 1 []], None)"
  using disable_selected_walls_fail_fast
          [of "[1, 5]"
              "[fixture_wall 0 True (0, 0, 1) 0 0 [], fixture_wall 1 True (0, 0, 1) 0 1 []]"
              "[1]" 5 "[0]"]
        disable_selected_walls_fail_fast
          [of "[1, 0]"
              "[fixture_wall 0 True (0, 0, 1) 0 0 [], fixture_wall 1 True (0, 0, 1) 0 1 []]"
              "[]" 7 "[]"]
  by (simp add: fixture_wall_def)

section \<open>Properties of the identifier harmonisation\<close>

lemma harmonise_parent_length [simp]:
  "length (harmonise_parent i pw k heap) = length heap"
  by (induction pw arbitrary: k heap) auto

lemma harmonise_parent_parent_id [simp]:
  "parent_id (harmonise_parent i pw k heap ! p) = parent_id (heap ! p)"
proof (induction pw arbitrary: k heap)
  case Nil
  then show ?case by simp
next
  case (Cons j pw)
  have "parent_id (heap[j := (heap ! j)\<lparr>ident := v\<rparr>] ! p) = parent_id (heap ! p)" for v
    by (cases "j < length heap") (auto simp: nth_list_update list_update_beyond)
  with Cons.IH show ?case by simp
qed

lemma harmonise_parent_other:
  "parent_id (heap ! p) \<noteq> i \<or> p \<notin> set pw \<Longrightarrow> harmonise_parent i pw k heap ! p = heap ! p"
proof (induction pw arbitrary: k heap)
  case Nil
  then show ?case by simp
next
  case (Cons j pw)
  let ?h = "heap[j := (heap ! j)\<lparr>ident := parent_id (heap ! j) * 1000 + k\<rparr>]"
  show ?case
  proof (cases "parent_id (heap ! j) = i")
    case False
    with Cons show ?thesis by auto
  next
    case True
    with Cons.prems have pj: "p \<noteq> j" by auto
    have par: "parent_id (?h ! p) = parent_id (heap ! p)" using pj by simp
    have "harmonise_parent i pw (k + 1) ?h ! p = ?h ! p"
      using Cons.prems par by (intro Cons.IH) auto
    with True pj show ?thesis by simp
  qed
qed

lemma harmonise_parent_id:
  "distinct pw \<Longrightarrow> \<forall>p \<in> set pw. p < length heap \<Longrightarrow> m < length pw \<Longrightarrow>
   parent_id (heap ! (pw ! m)) = i \<Longrightarrow>
     ident (harmonise_parent i pw k heap ! (pw ! m)) =
       i * 1000 + k + int (length (filter (\<lambda>q. parent_id (heap ! q) = i) (take m pw)))"
proof (induction pw arbitrary: k heap m)
  case Nil
  then show ?case by simp
next
  case (Cons j pw)
  let ?h = "heap[j := (heap ! j)\<lparr>ident := parent_id (heap ! j) * 1000 + k\<rparr>]"
  have par: "parent_id (?h ! q) = parent_id (heap ! q)" for q
    by (cases "j < length heap") (auto simp: nth_list_update list_update_beyond)
  show ?case
  proof (cases m)
    case 0
    with Cons.prems have pj: "parent_id (heap ! j) = i" by simp
    have "harmonise_parent i pw (k + 1) ?h ! j = ?h ! j"
      using Cons.prems by (intro harmonise_parent_other) auto
    with 0 pj Cons.prems show ?thesis by simp
  next
    case (Suc m')
    with Cons.prems have m': "m' < length pw" and pm: "parent_id (heap ! (pw ! m')) = i"
      by auto
    have d: "distinct pw" and v: "\<forall>p \<in> set pw. p < length ?h" using Cons.prems by auto
    have pm': "parent_id (?h ! (pw ! m')) = i" using pm par by simp
    have filt: "filter (\<lambda>q. parent_id (?h ! q) = i) (take m' pw) =
                filter (\<lambda>q. parent_id (heap ! q) = i) (take m' pw)"
      using par by simp
    show ?thesis
    proof (cases "parent_id (heap ! j) = i")
      case True
      from Cons.IH [OF d v m' pm', of "k + 1"] filt True Suc show ?thesis by simp
    next
      case False
      have v0: "\<forall>p \<in> set pw. p < length heap" using Cons.prems by auto
      from Cons.IH [OF d v0 m' pm, of k] False Suc show ?thesis by simp
    qed
  qed
qed

lemma harmonise_from_length [simp]:
  "length (harmonise_from todo i pw heap) = length heap"
  by (induction todo arbitrary: i heap) auto

lemma harmonise_from_parent_id [simp]:
  "parent_id (harmonise_from todo i pw heap ! p) = parent_id (heap ! p)"
  by (induction todo arbitrary: i heap) auto

lemma harmonise_from_other:
  "parent_id (heap ! p) < int i \<or> int (i + todo) \<le> parent_id (heap ! p) \<or> p \<notin> set pw \<Longrightarrow>
     harmonise_from todo i pw heap ! p = heap ! p"
proof (induction todo arbitrary: i heap)
  case 0
  then show ?case by simp
next
  case (Suc todo)
  let ?h = "harmonise_parent (int i) pw 0 heap"
  have "harmonise_from todo (Suc i) pw ?h ! p = ?h ! p"
    using Suc.prems by (intro Suc.IH) auto
  moreover have "?h ! p = heap ! p"
    using Suc.prems by (intro harmonise_parent_other) auto
  ultimately show ?case by simp
qed

lemma harmonise_from_id:
  "distinct pw \<Longrightarrow> \<forall>p \<in> set pw. p < length heap \<Longrightarrow> m < length pw \<Longrightarrow>
   int i \<le> parent_id (heap ! (pw ! m)) \<Longrightarrow> parent_id (heap ! (pw ! m)) < int (i + todo) \<Longrightarrow>
     ident (harmonise_from todo i pw heap ! (pw ! m)) =
       parent_id (heap ! (pw ! m)) * 1000 + int (sequence_within_parent heap pw m)"
proof (induction todo arbitrary: i heap)
  case 0
  then show ?case by simp
next
  case (Suc todo)
  let ?h = "harmonise_parent (int i) pw 0 heap"
  have seq: "sequence_within_parent ?h pw m = sequence_within_parent heap pw m"
    by (simp add: sequence_within_parent_def)
  show ?case
  proof (cases "parent_id (heap ! (pw ! m)) = int i")
    case True
    have "harmonise_from todo (Suc i) pw ?h ! (pw ! m) = ?h ! (pw ! m)"
      using True by (intro harmonise_from_other) auto
    moreover have "ident (?h ! (pw ! m)) =
        int i * 1000 + 0 + int (length (filter (\<lambda>q. parent_id (heap ! q) = int i) (take m pw)))"
      using Suc.prems True by (intro harmonise_parent_id) auto
    ultimately show ?thesis using True by (simp add: sequence_within_parent_def)
  next
    case False
    have "ident (harmonise_from todo (Suc i) pw ?h ! (pw ! m)) =
            parent_id (?h ! (pw ! m)) * 1000 + int (sequence_within_parent ?h pw m)"
      using Suc.prems False by (intro Suc.IH) auto
    then show ?thesis by (simp add: seq)
  qed
qed

lemma sequence_within_parent_mono:
  assumes "m1 < m2" "m2 < length pw"
    and "parent_id (heap ! (pw ! m1)) = parent_id (heap ! (pw ! m2))"
  shows "sequence_within_parent heap pw m1 < sequence_within_parent heap pw m2"
proof -
  let ?P = "\<lambda>q. parent_id (heap ! q) = parent_id (heap ! (pw ! m2))"
  have "m1 < length (take m2 pw)" using assms by simp
  from id_take_nth_drop [OF this]
  have "take m2 pw = take m1 pw @ pw ! m1 # drop (Suc m1) (take m2 pw)"
    using assms by (simp add: min_def)
  then obtain rest where t: "take m2 pw = take m1 pw @ pw ! m1 # rest" by blast
  have "length (filter ?P (take m1 pw)) < length (filter ?P (take m2 pw))"
    using assms by (simp add: t)
  with assms show ?thesis by (simp add: sequence_within_parent_def)
qed

text \<open>
  C3. After the harmonising loop every produced wall (a valid pointer of the duplicate-free
  list \<open>pwalls_BSP\<close>, its parent id an index of \<open>walls\<close>) has the id
  \<open>parent_id * 1000 + k\<close>, where \<open>k\<close> is its sequence number within the parent: the number
  of walls with the same parent id before it in production order, so 0 for the first.
  The parent id is unchanged, and a later wall of the same parent has a strictly larger
  \<open>k\<close> and a strictly larger id.
\<close>

theorem harmonise_identifiers_ids:
  assumes "distinct pwalls_BSP" and "\<forall>p \<in> set pwalls_BSP. p < length heap"
    and "m < length pwalls_BSP"
    and "0 \<le> parent_id (heap ! (pwalls_BSP ! m))"
    and "parent_id (heap ! (pwalls_BSP ! m)) < int walls_size"
  shows "ident (harmonise_identifiers walls_size pwalls_BSP heap ! (pwalls_BSP ! m)) =
           parent_id (harmonise_identifiers walls_size pwalls_BSP heap ! (pwalls_BSP ! m)) * 1000
             + int (sequence_within_parent heap pwalls_BSP m)
         \<and> parent_id (harmonise_identifiers walls_size pwalls_BSP heap ! (pwalls_BSP ! m)) =
             parent_id (heap ! (pwalls_BSP ! m))
         \<and> sequence_within_parent heap pwalls_BSP m =
             length (filter (\<lambda>q. parent_id (heap ! q) = parent_id (heap ! (pwalls_BSP ! m)))
                       (take m pwalls_BSP))
         \<and> (\<forall>m'. m < m' \<and> m' < length pwalls_BSP \<and>
                parent_id (heap ! (pwalls_BSP ! m')) = parent_id (heap ! (pwalls_BSP ! m)) \<longrightarrow>
                sequence_within_parent heap pwalls_BSP m < sequence_within_parent heap pwalls_BSP m' \<and>
                ident (harmonise_identifiers walls_size pwalls_BSP heap ! (pwalls_BSP ! m)) <
                ident (harmonise_identifiers walls_size pwalls_BSP heap ! (pwalls_BSP ! m')))"
proof (intro conjI allI impI)
  let ?H = "harmonise_identifiers walls_size pwalls_BSP heap"
  show par: "parent_id (?H ! (pwalls_BSP ! m)) = parent_id (heap ! (pwalls_BSP ! m))"
    by (simp add: harmonise_identifiers_def)
  have id: "ident (?H ! (pwalls_BSP ! k)) =
          parent_id (heap ! (pwalls_BSP ! k)) * 1000 + int (sequence_within_parent heap pwalls_BSP k)"
    if "k < length pwalls_BSP" "parent_id (heap ! (pwalls_BSP ! k)) = parent_id (heap ! (pwalls_BSP ! m))" for k
    unfolding harmonise_identifiers_def
    using assms that by (intro harmonise_from_id) auto
  from id [of m] assms par
  show "ident (?H ! (pwalls_BSP ! m)) =
           parent_id (?H ! (pwalls_BSP ! m)) * 1000 + int (sequence_within_parent heap pwalls_BSP m)"
    by simp
  show "sequence_within_parent heap pwalls_BSP m =
             length (filter (\<lambda>q. parent_id (heap ! q) = parent_id (heap ! (pwalls_BSP ! m)))
                       (take m pwalls_BSP))"
    by (simp add: sequence_within_parent_def)
  fix m'
  assume a: "m < m' \<and> m' < length pwalls_BSP \<and>
                parent_id (heap ! (pwalls_BSP ! m')) = parent_id (heap ! (pwalls_BSP ! m))"
  then show lt: "sequence_within_parent heap pwalls_BSP m < sequence_within_parent heap pwalls_BSP m'"
    by (intro sequence_within_parent_mono) auto
  from id [of m] id [of m'] a assms lt
  show "ident (?H ! (pwalls_BSP ! m)) < ident (?H ! (pwalls_BSP ! m'))"
    by simp
qed


theorem harmonise_identifiers_ids_witness:
  "ident (harmonise_identifiers 2 [0, 1, 2]
      [fixture_wall 7 True (0, 0, 1) 0 0 [], fixture_wall 8 True (0, 0, 1) 0 1 [],
       fixture_wall 9 True (0, 0, 1) 0 0 []] ! 0) = 0 \<and>
   ident (harmonise_identifiers 2 [0, 1, 2]
      [fixture_wall 7 True (0, 0, 1) 0 0 [], fixture_wall 8 True (0, 0, 1) 0 1 [],
       fixture_wall 9 True (0, 0, 1) 0 0 []] ! 1) = 1000 \<and>
   ident (harmonise_identifiers 2 [0, 1, 2]
      [fixture_wall 7 True (0, 0, 1) 0 0 [], fixture_wall 8 True (0, 0, 1) 0 1 [],
       fixture_wall 9 True (0, 0, 1) 0 0 []] ! 2) = 1 \<and>
   sequence_within_parent
      [fixture_wall 7 True (0, 0, 1) 0 0 [], fixture_wall 8 True (0, 0, 1) 0 1 [],
       fixture_wall 9 True (0, 0, 1) 0 0 []] [0, 1, 2] 0
   < sequence_within_parent
      [fixture_wall 7 True (0, 0, 1) 0 0 [], fixture_wall 8 True (0, 0, 1) 0 1 [],
       fixture_wall 9 True (0, 0, 1) 0 0 []] [0, 1, 2] 2"
proof -
  let ?h = "[fixture_wall 7 True (0, 0, 1) 0 0 [], fixture_wall 8 True (0, 0, 1) 0 1 [],
             fixture_wall 9 True (0, 0, 1) 0 0 []]"
  have d: "distinct [0, 1, 2 :: nat]" by simp
  have v: "\<forall>p \<in> set [0, 1, 2 :: nat]. p < length ?h" by simp
  have p: "parent_id (?h ! ([0, 1, 2] ! k)) = (if k = 1 then 1 else 0)" if "k < 3" for k :: nat
  proof -
    from that have "k = 0 \<or> k = 1 \<or> k = 2" by arith
    then show ?thesis by (auto simp: fixture_wall_def)
  qed
  have s0: "sequence_within_parent ?h [0, 1, 2] 0 = 0"
    by (simp add: sequence_within_parent_def)
  have s1: "sequence_within_parent ?h [0, 1, 2] 1 = 0"
    by (simp add: sequence_within_parent_def fixture_wall_def)
  have s2: "sequence_within_parent ?h [0, 1, 2] 2 = 1"
    by (simp add: sequence_within_parent_def fixture_wall_def eval_nat_numeral)
  from harmonise_identifiers_ids [OF d v, of 0 2] p [of 0] s0
  have "ident (harmonise_identifiers 2 [0, 1, 2] ?h ! 0) = 0" by simp
  moreover from harmonise_identifiers_ids [OF d v, of 1 2] p [of 1] s1
  have "ident (harmonise_identifiers 2 [0, 1, 2] ?h ! 1) = 1000" by simp
  moreover from harmonise_identifiers_ids [OF d v, of 2 2] p [of 2] s2
  have "ident (harmonise_identifiers 2 [0, 1, 2] ?h ! 2) = 1" by simp
  moreover have "sequence_within_parent ?h [0, 1, 2] 0 < sequence_within_parent ?h [0, 1, 2] 2"
  proof -
    have a: "0 < length [0, 1, 2 :: nat]" by simp
    have b: "0 \<le> parent_id (?h ! ([0, 1, 2] ! 0))" using p [of 0] by simp
    have c: "parent_id (?h ! ([0, 1, 2] ! 0)) < int 2" using p [of 0] by simp
    from harmonise_identifiers_ids
           [OF d v a b c, THEN conjunct2, THEN conjunct2, THEN conjunct2, THEN spec, of 2]
         p [of 0] p [of 2]
    show ?thesis by simp
  qed
  ultimately show ?thesis by simp
qed

section \<open>Properties of \<open>create_plane_polygon_map\<close>\<close>

lemma group_loop_total:
  "groups_nonempty (snd st) \<Longrightarrow>
     \<exists>st'. group_loop one_wall i st = Inr st' \<and> groups_nonempty (snd st')"
proof (induction one_wall i st rule: group_loop.induct)
  case (1 one_wall i heap ppm)
  show ?case
  proof (cases "i < length ppm")
    case False
    with "1.prems" show ?thesis by (simp add: group_loop.simps)
  next
    case True
    with "1.prems" have "ppm ! i \<noteq> []"
      by (simp add: groups_nonempty_def list_all_length)
    then obtain g gs where g: "ppm ! i = g # gs" by (cases "ppm ! i") auto
    have upd: "groups_nonempty (ppm[i := ppm ! i @ [one_wall]])"
      using "1.prems" by (auto simp: groups_nonempty_def list_all_iff dest!: set_update_subset_insert [THEN subsetD])
    have app: "groups_nonempty (ppm @ [[one_wall]])"
      using "1.prems" by (simp add: groups_nonempty_def)
    show ?thesis
      using True g "1.IH" [OF True g] "1.prems" upd app
      by (subst group_loop.simps) auto
  qed
qed

lemma wall_loop_total:
  "groups_nonempty (snd st) \<Longrightarrow>
     \<exists>st'. wall_loop ws st = Inr st' \<and> groups_nonempty (snd st')"
proof (induction ws arbitrary: st)
  case Nil
  then show ?case by simp
next
  case (Cons w ws)
  obtain heap ppm where st: "st = (heap, ppm)" by (cases st)
  with Cons.prems obtain heap' ppm' where
    g: "group_loop w 0 (heap, ppm) = Inr (heap', ppm')" "groups_nonempty ppm'"
    using group_loop_total [of "(heap, ppm)" w 0] by auto
  from Cons.IH [of "(heap', ppm')"] g Cons.IH [of st] Cons.prems st
  show ?case by auto
qed

lemma sort_key_Nil_iff: "(sort_key f xs = []) = (xs = [])"
  by (metis length_sort list.size(3) length_0_conv)

text \<open>
  C10. \<open>create_plane_polygon_map\<close> reads \<open>walls_to_check[0]\<close> with no emptiness check: on
  the empty vector this is an access outside the vector; on every non-empty vector (the
  groups already in the map having a first wall, as in the empty map) the access is in
  bounds, the loops end and the mapper returns a map in which every group has a first wall.
\<close>

theorem create_plane_polygon_map_first_access:
  "create_plane_polygon_map [] st = Inl undefined_access \<and>
   (walls_to_check \<noteq> [] \<and> groups_nonempty (snd st) \<longrightarrow>
      (\<exists>st'. create_plane_polygon_map walls_to_check st = Inr st' \<and>
         groups_nonempty (snd st')))"
proof (intro conjI impI)
  show "create_plane_polygon_map [] st = Inl undefined_access"
    by (simp add: create_plane_polygon_map_def)
next
  assume a: "walls_to_check \<noteq> [] \<and> groups_nonempty (snd st)"
  then obtain w0 rest where s: "sort_key (\<lambda>p. ident (fst st ! p)) walls_to_check = w0 # rest"
    by (cases "sort_key (\<lambda>p. ident (fst st ! p)) walls_to_check") (auto simp: sort_key_Nil_iff)
  from a have ne: "groups_nonempty (snd st @ [[w0]])" by (simp add: groups_nonempty_def)
  then have "hd (snd st @ [[w0]]) \<noteq> []"
    by (cases "snd st") (auto simp: groups_nonempty_def)
  then obtain g gs where h: "hd (snd st @ [[w0]]) = g # gs"
    by (cases "hd (snd st @ [[w0]])") auto
  from wall_loop_total [of "(set_plane_polygon_map_id g 0 (fst st), snd st @ [[w0]])" "w0 # rest"] ne
  obtain st' where "wall_loop (w0 # rest) (set_plane_polygon_map_id g 0 (fst st), snd st @ [[w0]]) = Inr st'"
    "groups_nonempty (snd st')"
    by auto
  with s h show "\<exists>st'. create_plane_polygon_map walls_to_check st = Inr st' \<and> groups_nonempty (snd st')"
    by (simp add: create_plane_polygon_map_def)
qed


theorem create_plane_polygon_map_first_access_witness:
  "create_plane_polygon_map [] ([fixture_wall 0 True (0, 0, 1) 0 0 []], []) = Inl undefined_access \<and>
   (\<exists>st'. create_plane_polygon_map [0] ([fixture_wall 0 True (0, 0, 1) 0 0 []], []) = Inr st' \<and>
      groups_nonempty (snd st'))"
  using create_plane_polygon_map_first_access [of "([fixture_wall 0 True (0, 0, 1) 0 0 []], [])" "[0]"]
  by (simp add: groups_nonempty_def)


text \<open>
  C4. The mapper on two walls of different planes, the one of lowest id disabled: the
  disabled wall is pushed as the first group before the loop that skips disabled walls, so
  it is the member of group 0, and the enabled wall is in group 1.
\<close>

theorem create_plane_polygon_map_disabled_first:
  "create_plane_polygon_map [0, 1]
     ([fixture_wall 0 False (0, 0, 1) 0 0 [], fixture_wall 1 True (1, 0, 0) 0 1 []], []) =
   Inr ([fixture_wall 0 False (0, 0, 1) 0 0 [],
         (fixture_wall 1 True (1, 0, 0) 0 1 [])\<lparr>plane_polygon_map_id := 1\<rparr>], [[0], [1]]) \<and>
   \<not> enabled ([fixture_wall 0 False (0, 0, 1) 0 0 [], fixture_wall 1 True (1, 0, 0) 0 1 []] ! 0)"
  by (simp add: create_plane_polygon_map_def group_loop.simps set_plane_polygon_map_id_def
        same_normal_def signbit_def fixture_wall_def)

text \<open>
  A second run of the mapper on the state the first run left: the map is not cleared, so
  the second run appends to it, and the wall of the second plane moves from group 1 to
  group 3.
\<close>

theorem create_plane_polygon_map_second_run_counterexample:
  "create_plane_polygon_map [0, 1]
     ([fixture_wall 0 True (0, 0, 1) 0 0 [], fixture_wall 1 True (1, 0, 0) 0 1 []], []) =
   Inr ([fixture_wall 0 True (0, 0, 1) 0 0 [],
         (fixture_wall 1 True (1, 0, 0) 0 1 [])\<lparr>plane_polygon_map_id := 1\<rparr>], [[0], [1]]) \<and>
   create_plane_polygon_map [0, 1]
     ([fixture_wall 0 True (0, 0, 1) 0 0 [],
       (fixture_wall 1 True (1, 0, 0) 0 1 [])\<lparr>plane_polygon_map_id := 1\<rparr>], [[0], [1]]) =
   Inr ([fixture_wall 0 True (0, 0, 1) 0 0 [],
         (fixture_wall 1 True (1, 0, 0) 0 1 [])\<lparr>plane_polygon_map_id := 3\<rparr>],
        [[0], [1], [0], [1]])"
  by (simp add: create_plane_polygon_map_def group_loop.simps set_plane_polygon_map_id_def
        same_normal_def signbit_def fixture_wall_def)

text \<open>
  C5, amended. Two runs of the mapper from the same state of the map on the same set of
  walls, of pairwise distinct ids and handed over in any order, give the same groups and
  the same group ids.
\<close>

theorem create_plane_polygon_map_order:
  assumes "distinct (map (\<lambda>p. ident (fst st ! p)) walls_to_check)"
    and "mset walls_to_check' = mset walls_to_check"
  shows "create_plane_polygon_map walls_to_check' st = create_plane_polygon_map walls_to_check st"
proof -
  have "inj_on (\<lambda>p. ident (fst st ! p)) (set walls_to_check)"
    using assms(1) by (simp add: distinct_map)
  moreover have "set walls_to_check' = set walls_to_check"
    using assms(2) by (rule mset_eq_setD)
  ultimately have "sort_key (\<lambda>p. ident (fst st ! p)) walls_to_check' =
        sort_key (\<lambda>p. ident (fst st ! p)) walls_to_check"
    using assms(2) by (intro sort_key_eq_sort_key) auto
  then show ?thesis by (simp add: create_plane_polygon_map_def)
qed

theorem create_plane_polygon_map_order_witness:
  "create_plane_polygon_map [1, 0]
     ([fixture_wall 0 True (0, 0, 1) 0 0 [], fixture_wall 1 True (1, 0, 0) 0 1 []], []) =
   Inr ([fixture_wall 0 True (0, 0, 1) 0 0 [],
         (fixture_wall 1 True (1, 0, 0) 0 1 [])\<lparr>plane_polygon_map_id := 1\<rparr>], [[0], [1]])"
  using create_plane_polygon_map_order
          [of "([fixture_wall 0 True (0, 0, 1) 0 0 [], fixture_wall 1 True (1, 0, 0) 0 1 []], [])"
              "[0, 1]" "[1, 0]"]
  by (simp add: create_plane_polygon_map_def group_loop.simps set_plane_polygon_map_id_def
        same_normal_def signbit_def fixture_wall_def)

section \<open>Properties of the unification of \<open>direct_reflectables\<close>\<close>

lemma distinct_remdups_adj_sorted:
  "sorted xs \<Longrightarrow> distinct (remdups_adj (xs :: nat list))"
  by (induction xs rule: remdups_adj.induct) auto

lemma remdups_adj_sort_eq:
  "remdups_adj (sort xs) = sorted_list_of_set (set (xs :: nat list))"
proof (rule sorted_distinct_set_unique)
  show "sorted (remdups_adj (sort xs))" by (simp add: sorted_remdups_adj)
  show "distinct (remdups_adj (sort xs))" by (simp add: distinct_remdups_adj_sorted)
  show "sorted (sorted_list_of_set (set xs))" by simp
  show "distinct (sorted_list_of_set (set xs))" by simp
  show "set (remdups_adj (sort xs)) = set (sorted_list_of_set (set xs))" by simp
qed

lemma direct_reflectables_united_eq:
  "direct_reflectables_united heap i =
     sorted_list_of_set (\<Union>k \<in> set i. set (direct_reflectables (heap ! k)))"
  by (simp add: direct_reflectables_united_def remdups_adj_sort_eq)

text \<open>
  C7. The united vector of a plane group does not depend on the order of the group's
  members nor on the order of the entries of each member's \<open>direct_reflectables\<close>: for
  every permutation of either the result is the same list, sorted, free of duplicates, with
  the union of the members' entries as its elements.
\<close>

theorem direct_reflectables_united_order:
  assumes "mset i' = mset i"
    and "\<forall>k \<in> set i. mset (direct_reflectables (heap' ! k)) = mset (direct_reflectables (heap ! k))"
  shows "direct_reflectables_united heap' i' = direct_reflectables_united heap i
       \<and> sorted (direct_reflectables_united heap i)
       \<and> distinct (direct_reflectables_united heap i)
       \<and> set (direct_reflectables_united heap i) =
           (\<Union>k \<in> set i. set (direct_reflectables (heap ! k)))"
proof -
  have s: "set i' = set i" using assms(1) by (rule mset_eq_setD)
  have "set (direct_reflectables (heap' ! k)) = set (direct_reflectables (heap ! k))"
    if "k \<in> set i" for k
    using assms(2) that by (auto dest: mset_eq_setD)
  then have "(\<Union>k \<in> set i'. set (direct_reflectables (heap' ! k))) =
             (\<Union>k \<in> set i. set (direct_reflectables (heap ! k)))"
    using s by simp
  then show ?thesis by (simp add: direct_reflectables_united_eq)
qed

lemma unify_other:
  "unify_direct_reflectables ppm heap = Inr heap' \<Longrightarrow>
     length heap' = length heap \<and> (\<forall>p. p \<notin> hd ` set ppm \<longrightarrow> heap' ! p = heap ! p)"
proof (induction ppm arbitrary: heap)
  case Nil
  then show ?case by simp
next
  case (Cons i ppm)
  from Cons.prems obtain i0 rest where i: "i = i0 # rest"
    by (cases i) auto
  let ?h = "heap[i0 := (heap ! i0)\<lparr>direct_reflectables := direct_reflectables_united heap i\<rparr>]"
  from Cons.prems i have "unify_direct_reflectables ppm ?h = Inr heap'" by simp
  from Cons.IH [OF this] i show ?case by auto
qed

lemma unify_groups:
  "distinct (concat ppm) \<Longrightarrow> groups_nonempty ppm \<Longrightarrow> \<forall>p \<in> set (concat ppm). p < length heap \<Longrightarrow>
   \<exists>heap'. unify_direct_reflectables ppm heap = Inr heap' \<and> length heap' = length heap \<and>
     (\<forall>p. p \<notin> hd ` set ppm \<longrightarrow> heap' ! p = heap ! p) \<and>
     (\<forall>g \<in> set ppm. direct_reflectables (heap' ! hd g) = direct_reflectables_united heap g)"
proof (induction ppm arbitrary: heap)
  case Nil
  then show ?case by simp
next
  case (Cons i ppm)
  from Cons.prems obtain i0 rest where i: "i = i0 # rest"
    by (cases i) (auto simp: groups_nonempty_def)
  let ?h = "heap[i0 := (heap ! i0)\<lparr>direct_reflectables := direct_reflectables_united heap i\<rparr>]"
  have d: "distinct (concat ppm)" and ne: "groups_nonempty ppm"
    and v: "\<forall>p \<in> set (concat ppm). p < length ?h"
    using Cons.prems by (auto simp: groups_nonempty_def)
  from Cons.IH [OF d ne v] obtain heap' where
    r: "unify_direct_reflectables ppm ?h = Inr heap'" and l: "length heap' = length heap"
    and o: "\<forall>p. p \<notin> hd ` set ppm \<longrightarrow> heap' ! p = ?h ! p"
    and u: "\<forall>g \<in> set ppm. direct_reflectables (heap' ! hd g) = direct_reflectables_united ?h g"
    by auto
  have i0_notin: "i0 \<notin> set (concat ppm)" using Cons.prems(1) i by auto
  have hd_in: "hd g \<in> set (concat ppm)" if "g \<in> set ppm" for g
  proof -
    from that ne have "g \<noteq> []" by (auto simp: groups_nonempty_def list_all_iff)
    then have "hd g \<in> set g" by simp
    with that show ?thesis by auto
  qed
  have i0_hd: "i0 \<notin> hd ` set ppm" using i0_notin hd_in by auto
  have i0v: "i0 < length heap" using Cons.prems(3) i by simp
  have same: "direct_reflectables_united ?h g = direct_reflectables_united heap g"
    if "g \<in> set ppm" for g
  proof -
    have "i0 \<notin> set g" using i0_notin that by auto
    then have "?h ! k = heap ! k" if "k \<in> set g" for k
      using that by (metis nth_list_update_neq)
    then have "map (\<lambda>k. direct_reflectables (?h ! k)) g = map (\<lambda>k. direct_reflectables (heap ! k)) g"
      by (intro map_cong) auto
    then show ?thesis
      unfolding direct_reflectables_united_def
      by (rule arg_cong [where f = "\<lambda>m. remdups_adj (sort (concat m))"])
  qed
  have first: "direct_reflectables (heap' ! hd i) = direct_reflectables_united heap i"
    using o i0_hd i i0v by simp
  have others: "\<forall>p. p \<notin> hd ` set (i # ppm) \<longrightarrow> heap' ! p = heap ! p"
    using o i by auto
  show ?case using r l first others u same i by auto
qed

theorem direct_reflectables_united_order_witness:
  "direct_reflectables_united
     [fixture_wall 0 True (0, 0, 1) 0 0 [2, 3], fixture_wall 1 True (0, 0, 1) 0 0 [1, 2, 2]] [1, 0]
   = direct_reflectables_united
     [fixture_wall 0 True (0, 0, 1) 0 0 [3, 2], fixture_wall 1 True (0, 0, 1) 0 0 [2, 1, 2]] [0, 1] \<and>
   direct_reflectables_united
     [fixture_wall 0 True (0, 0, 1) 0 0 [3, 2], fixture_wall 1 True (0, 0, 1) 0 0 [2, 1, 2]] [0, 1]
   = [1, 2, 3]"
  using direct_reflectables_united_order
          [of "[1, 0]" "[0, 1]"
              "[fixture_wall 0 True (0, 0, 1) 0 0 [2, 3], fixture_wall 1 True (0, 0, 1) 0 0 [1, 2, 2]]"
              "[fixture_wall 0 True (0, 0, 1) 0 0 [3, 2], fixture_wall 1 True (0, 0, 1) 0 0 [2, 1, 2]]"]
  by (simp add: direct_reflectables_united_def fixture_wall_def)

text \<open>
  The aggregator on one group of two coplanar walls whose sets are \<open>{2}\<close> and \<open>{3}\<close>: the
  united vector \<open>[2, 3]\<close> is assigned to the first wall of the group only; the second
  member still holds \<open>[3]\<close>.
\<close>

theorem unify_direct_reflectables_counterexample:
  "unify_direct_reflectables [[0, 1]]
     [fixture_wall 0 True (0, 0, 1) 0 0 [2], fixture_wall 1 True (0, 0, 1) 0 0 [3],
      fixture_wall 2 True (1, 0, 0) 0 1 [], fixture_wall 3 True (0, 1, 0) 0 2 []]
   = Inr [fixture_wall 0 True (0, 0, 1) 0 0 [2, 3], fixture_wall 1 True (0, 0, 1) 0 0 [3],
          fixture_wall 2 True (1, 0, 0) 0 1 [], fixture_wall 3 True (0, 1, 0) 0 2 []] \<and>
   direct_reflectables_united
     [fixture_wall 0 True (0, 0, 1) 0 0 [2], fixture_wall 1 True (0, 0, 1) 0 0 [3],
      fixture_wall 2 True (1, 0, 0) 0 1 [], fixture_wall 3 True (0, 1, 0) 0 2 []] [0, 1] = [2, 3] \<and>
   direct_reflectables (fixture_wall 1 True (0, 0, 1) 0 0 [3]) \<noteq> [2, 3]"
  by (simp add: direct_reflectables_united_def fixture_wall_def)

text \<open>
  C6, amended. For a map whose groups have a first wall and share no wall (valid
  pointers), the aggregator returns; for every group the first wall of the group then
  holds the united vector of the group, which is sorted by wall identity, free of
  duplicates and has as elements the union of the sets the members held before; every
  other member of the group holds the set it held before.
\<close>

theorem unify_direct_reflectables_first_member:
  assumes "distinct (concat ppm)" and "groups_nonempty ppm"
    and "\<forall>p \<in> set (concat ppm). p < length heap"
  shows "\<exists>heap'. unify_direct_reflectables ppm heap = Inr heap' \<and>
           (\<forall>g \<in> set ppm.
              direct_reflectables (heap' ! hd g) = direct_reflectables_united heap g \<and>
              sorted (direct_reflectables_united heap g) \<and>
              distinct (direct_reflectables_united heap g) \<and>
              set (direct_reflectables_united heap g) =
                (\<Union>k \<in> set g. set (direct_reflectables (heap ! k))) \<and>
              (\<forall>k \<in> set (tl g). direct_reflectables (heap' ! k) = direct_reflectables (heap ! k)))"
proof -
  from unify_groups [OF assms] obtain heap' where
    r: "unify_direct_reflectables ppm heap = Inr heap'"
    and o: "\<forall>p. p \<notin> hd ` set ppm \<longrightarrow> heap' ! p = heap ! p"
    and u: "\<forall>g \<in> set ppm. direct_reflectables (heap' ! hd g) = direct_reflectables_united heap g"
    by blast
  have ne: "g \<noteq> []" if "g \<in> set ppm" for g
    using that assms(2) by (auto simp: groups_nonempty_def list_all_iff)
  have dis: "set g \<inter> set g' = {}" if "g \<in> set ppm" "g' \<in> set ppm" "g \<noteq> g'" for g g'
    using that assms(1) by (simp add: distinct_concat_iff)
  have dg: "distinct g" if "g \<in> set ppm" for g
    using that assms(1) by (simp add: distinct_concat_iff)
  have tl_other: "k \<notin> hd ` set ppm" if g: "g \<in> set ppm" and k: "k \<in> set (tl g)" for g k
  proof
    assume "k \<in> hd ` set ppm"
    then obtain g' where g': "g' \<in> set ppm" and kg': "k = hd g'" by auto
    have kin: "k \<in> set g" using k ne [OF g] by (auto dest: list.set_sel(2))
    have kin': "k \<in> set g'" using kg' ne [OF g'] by simp
    from dis [OF g g'] kin kin' have "g = g'" by auto
    with kg' have "hd g \<in> set (tl g)" using k by simp
    moreover have "g = hd g # tl g" using ne [OF g] by simp
    ultimately show False using dg [OF g] by (metis distinct.simps(2))
  qed
  have "\<forall>g \<in> set ppm.
          direct_reflectables (heap' ! hd g) = direct_reflectables_united heap g \<and>
          sorted (direct_reflectables_united heap g) \<and>
          distinct (direct_reflectables_united heap g) \<and>
          set (direct_reflectables_united heap g) =
            (\<Union>k \<in> set g. set (direct_reflectables (heap ! k))) \<and>
          (\<forall>k \<in> set (tl g). direct_reflectables (heap' ! k) = direct_reflectables (heap ! k))"
  proof
    fix g
    assume g: "g \<in> set ppm"
    have "\<forall>k \<in> set (tl g). direct_reflectables (heap' ! k) = direct_reflectables (heap ! k)"
      using o tl_other [OF g] by simp
    with u g show "direct_reflectables (heap' ! hd g) = direct_reflectables_united heap g \<and>
          sorted (direct_reflectables_united heap g) \<and>
          distinct (direct_reflectables_united heap g) \<and>
          set (direct_reflectables_united heap g) =
            (\<Union>k \<in> set g. set (direct_reflectables (heap ! k))) \<and>
          (\<forall>k \<in> set (tl g). direct_reflectables (heap' ! k) = direct_reflectables (heap ! k))"
      by (simp add: direct_reflectables_united_eq)
  qed
  with r show ?thesis by blast
qed

theorem unify_direct_reflectables_first_member_witness:
  "\<exists>heap'. unify_direct_reflectables [[0, 1], [2]]
       [fixture_wall 0 True (0, 0, 1) 0 0 [3, 2], fixture_wall 1 True (0, 0, 1) 0 0 [2, 1],
        fixture_wall 2 True (1, 0, 0) 0 1 [0, 0], fixture_wall 3 True (0, 1, 0) 0 2 []] = Inr heap' \<and>
     direct_reflectables (heap' ! 0) = [1, 2, 3] \<and>
     direct_reflectables (heap' ! 1) = [2, 1] \<and>
     direct_reflectables (heap' ! 2) = [0]"
  using unify_direct_reflectables_first_member
          [of "[[0, 1], [2]]"
              "[fixture_wall 0 True (0, 0, 1) 0 0 [3, 2], fixture_wall 1 True (0, 0, 1) 0 0 [2, 1],
                fixture_wall 2 True (1, 0, 0) 0 1 [0, 0], fixture_wall 3 True (0, 1, 0) 0 2 []]"]
  by (simp add: direct_reflectables_united_def fixture_wall_def groups_nonempty_def)

section \<open>Properties of the choice of the splitting plane\<close>

lemma mem_nonempty: "x \<in> set xs \<Longrightarrow> xs \<noteq> []"
  by auto

lemma find_filter_hd:
  "List.find P xs = (case filter P xs of [] \<Rightarrow> None | x # _ \<Rightarrow> Some x)"
  by (induction xs) auto

lemma sorted_hd_le:
  "sorted (map k xs) \<Longrightarrow> y \<in> set xs \<Longrightarrow> k (hd xs) \<le> k y"
  by (cases xs) auto

lemma hd_filter_least:
  assumes "sorted (map k xs)" "y \<in> set xs" "Q y"
  shows "k (hd (filter Q xs)) \<le> k y"
proof -
  have "sorted (map k (filter Q xs))" using assms(1) by (rule sorted_filter)
  moreover have "y \<in> set (filter Q xs)" using assms by simp
  ultimately show ?thesis by (rule sorted_hd_le)
qed

lemma hd_sort_key:
  fixes f :: "'a \<Rightarrow> 'b::linorder"
  assumes "xs \<noteq> []"
  shows "hd (sort_key f xs) \<in> set xs"
    and "y \<in> set xs \<Longrightarrow> f (hd (sort_key f xs)) \<le> f y"
    and "hd (filter (\<lambda>y. f y = f (hd (sort_key f xs))) xs) = hd (sort_key f xs)"
proof -
  let ?s = "sort_key f xs"
  have ne: "?s \<noteq> []" using assms by (simp only: sort_key_Nil_iff not_False_eq_True)
  then obtain h rest where s: "?s = h # rest" by (cases ?s) auto
  have "hd ?s \<in> set ?s" using ne by (rule hd_in_set)
  then show "hd ?s \<in> set xs" by simp
  have srt: "sorted (map f ?s)" by simp
  show "f (hd ?s) \<le> f y" if "y \<in> set xs"
  proof -
    from that have "y \<in> set ?s" by simp
    with srt show ?thesis by (rule sorted_hd_le)
  qed
  have "filter (\<lambda>y. f y = f h) xs = filter (\<lambda>y. f y = f h) ?s"
    by (simp only: sort_key_stable)
  also have "\<dots> = h # filter (\<lambda>y. f y = f h) rest" by (simp add: s)
  finally show "hd (filter (\<lambda>y. f y = f (hd ?s)) xs) = hd ?s" by (simp add: s)
qed

lemma insort_key_map:
  "insort_key f (g x) (map g ys) = map g (insort_key (\<lambda>x. f (g x)) x ys)"
  by (induction ys) auto

lemma sort_key_map_commute:
  "sort_key f (map g xs) = map g (sort_key (\<lambda>x. f (g x)) xs)"
  by (induction xs) (auto simp: insort_key_map)

lemma table_nth:
  assumes "map fst tb = [0..<length tb]" "e \<in> set tb"
  shows "fst e < length tb \<and> tb ! fst e = e"
proof -
  from assms(2) obtain j where j: "j < length tb" "tb ! j = e" by (auto simp: in_set_conv_nth)
  have "fst (tb ! j) = map fst tb ! j" using j by simp
  also have "\<dots> = j" using assms(1) j by simp
  finally show ?thesis using j by simp
qed

lemma table_fst:
  assumes "map fst tb = [0..<length tb]" "j < length tb"
  shows "fst (tb ! j) = j"
proof -
  have "fst (tb ! j) = map fst tb ! j" using assms(2) by simp
  also have "\<dots> = [0..<length tb] ! j" by (simp only: assms(1))
  also have "\<dots> = j" using assms(2) by simp
  finally show ?thesis .
qed

lemma table_sorted: "map fst tb = [0..<length tb] \<Longrightarrow> sorted (map fst tb)"
  by simp


lemma select_wall_id_table:
  assumes ne: "tb \<noteq> []" and ids: "map fst tb = [0..<length tb]"
    and kt: "keeps_ties P t tb"
  shows "\<exists>c. select_wall_id P t tb = Inr c \<and> c < length tb \<and>
     (if \<exists>j<length tb. t \<le> fst (snd (tb ! j))
      then t \<le> fst (snd (tb ! c)) \<and>
           (\<forall>j<length tb. t \<le> fst (snd (tb ! j)) \<longrightarrow>
              snd (snd (tb ! c)) < snd (snd (tb ! j)) \<or>
              (snd (snd (tb ! c)) = snd (snd (tb ! j)) \<and> c \<le> j))
      else (\<forall>j<length tb.
              deviation P t (fst (snd (tb ! c))) < deviation P t (fst (snd (tb ! j))) \<or>
              (deviation P t (fst (snd (tb ! c))) = deviation P t (fst (snd (tb ! j))) \<and>
               (snd (snd (tb ! c)) < snd (snd (tb ! j)) \<or>
                (snd (snd (tb ! c)) = snd (snd (tb ! j)) \<and> c \<le> j)))))"
proof -
  let ?cr = "\<lambda>e :: nat \<times> real \<times> int. snd (snd e)"
  let ?P = "\<lambda>e :: nat \<times> real \<times> int. t \<le> fst (snd e)"
  let ?L1 = "sort_key ?cr tb"
  let ?g = "\<lambda>e :: nat \<times> real \<times> int. (fst e, deviation P t (fst (snd e)), snd (snd e))"
  let ?dv = "\<lambda>e :: nat \<times> real \<times> int. fst (snd e)"
  have dev_eq: "deviations P t xs = map ?g xs" for xs
    by (simp add: deviations_def case_prod_beta)
  have kt1: "std_sort P by_crosses tb = ?L1"
    using kt by (simp only: keeps_ties_def)
  have kt2: "std_sort P by_b (map ?g ?L1) = sort_key ?dv (map ?g ?L1)"
    using kt by (simp only: keeps_ties_def kt1 dev_eq)
  have P_eq: "(\<lambda>(temp_id, b, crosses). b \<ge> t) = ?P" by (auto simp: fun_eq_iff)
  have srt: "sorted (map fst tb)" using ids by simp
  show ?thesis
  proof (cases "filter ?P tb = []")
    case False
    let ?ys = "filter ?P tb"
    let ?e = "hd (sort_key ?cr ?ys)"
    have ex: "\<exists>j<length tb. t \<le> fst (snd (tb ! j))"
    proof -
      from False obtain y where "y \<in> set tb" "?P y" by (auto simp: filter_empty_conv)
      then show ?thesis by (auto simp: in_set_conv_nth)
    qed
    have fl: "filter ?P ?L1 = sort_key ?cr ?ys" by (rule filter_sort)
    have sne: "sort_key ?cr ?ys \<noteq> []" using False by (simp only: sort_key_Nil_iff not_False_eq_True)
    then obtain e rest where er: "sort_key ?cr ?ys = e # rest" by (cases "sort_key ?cr ?ys") auto
    have found: "List.find ?P ?L1 = Some ?e"
      by (simp add: find_filter_hd fl er)
    have sel: "select_wall_id P t tb = Inr (fst ?e)"
      unfolding select_wall_id_def kt1 P_eq
      by (simp only: found option.case case_prod_beta)
    have e_in: "?e \<in> set ?ys" using False by (rule hd_sort_key(1))
    then have e_tb: "?e \<in> set tb" and Pe: "?P ?e" by auto
    from table_nth [OF ids e_tb] have c_lt: "fst ?e < length tb" and c_nth: "tb ! fst ?e = ?e"
      by auto
    have rank: "?cr ?e < ?cr (tb ! j) \<or> (?cr ?e = ?cr (tb ! j) \<and> fst ?e \<le> j)"
      if j: "j < length tb" and Pj: "?P (tb ! j)" for j
    proof -
      have jin: "tb ! j \<in> set ?ys" using j Pj by simp
      have le: "?cr ?e \<le> ?cr (tb ! j)" using False jin by (rule hd_sort_key(2))
      have fj: "fst (tb ! j) = j" using j by (rule table_fst [OF ids])
      show ?thesis
      proof (cases "?cr ?e = ?cr (tb ! j)")
        case True
        have "hd (filter (\<lambda>y. ?cr y = ?cr ?e) ?ys) = ?e" using False by (rule hd_sort_key(3))
        then have h: "hd (filter (\<lambda>y. ?P y \<and> ?cr y = ?cr ?e) tb) = ?e"
          by (simp only: filter_filter)
        have "fst (hd (filter (\<lambda>y. ?P y \<and> ?cr y = ?cr ?e) tb)) \<le> fst (tb ! j)"
          using srt j Pj True by (intro hd_filter_least) auto
        with h fj True show ?thesis by simp
      next
        case False
        with le show ?thesis by simp
      qed
    qed
    have Pc: "t \<le> fst (snd (tb ! fst ?e))" using Pe by (simp only: c_nth)
    have rank': "\<forall>j<length tb. t \<le> fst (snd (tb ! j)) \<longrightarrow>
              snd (snd (tb ! fst ?e)) < snd (snd (tb ! j)) \<or>
              (snd (snd (tb ! fst ?e)) = snd (snd (tb ! j)) \<and> fst ?e \<le> j)"
      using rank by (simp only: c_nth) blast
    show ?thesis
      apply (rule exI [of _ "fst ?e"])
      apply (simp only: ex if_True)
      using sel c_lt Pc rank' by blast
  next
    case True
    have nex: "\<not> (\<exists>j<length tb. t \<le> fst (snd (tb ! j)))"
      using True by (auto simp: filter_empty_conv)
    have notfound: "List.find ?P ?L1 = None"
      using True by (auto simp: find_None_iff filter_empty_conv)
    let ?tb' = "map ?g tb"
    let ?M = "map ?g ?L1"
    have M: "?M = sort_key ?cr ?tb'" by (simp add: sort_key_map_commute)
    have ids': "map fst ?tb' = [0..<length ?tb']" using ids by (simp add: comp_def)
    have srt': "sorted (map fst ?tb')" using ids' by simp
    have Mne: "?M \<noteq> []" using ne by (simp only: map_is_Nil_conv sort_key_Nil_iff not_False_eq_True)
    let ?h = "hd (sort_key ?dv ?M)"
    have L2ne: "sort_key ?dv ?M \<noteq> []" using Mne by (simp only: sort_key_Nil_iff not_False_eq_True)
    then obtain h rest where hr: "sort_key ?dv ?M = h # rest" by (cases "sort_key ?dv ?M") auto
    have sel: "select_wall_id P t tb = Inr (fst ?h)"
      unfolding select_wall_id_def kt1 dev_eq kt2 P_eq
      by (simp only: notfound hr option.case list.case case_prod_beta list.sel)
    have h_M: "?h \<in> set ?M" using Mne by (rule hd_sort_key(1))
    then have h_tb': "?h \<in> set ?tb'" by simp
    note tn = table_nth [OF ids' h_tb']
    have c_lt: "fst ?h < length tb" using tn by (simp only: length_map)
    have c_nth': "?tb' ! fst ?h = ?h" using tn by (rule conjunct2)
    have hc: "?h = ?g (tb ! fst ?h)"
    proof -
      have "?tb' ! fst ?h = ?g (tb ! fst ?h)" using c_lt by (rule nth_map)
      with c_nth' show ?thesis by (rule trans [OF sym])
    qed
    let ?ys = "filter (\<lambda>y. ?dv y = ?dv ?h) ?tb'"
    have hdM: "hd (filter (\<lambda>y. ?dv y = ?dv ?h) ?M) = ?h" using Mne by (rule hd_sort_key(3))
    have flM: "filter (\<lambda>y. ?dv y = ?dv ?h) ?M = sort_key ?cr ?ys"
      by (simp only: M filter_sort)
    have h_ys: "?h \<in> set ?ys" using h_tb' by simp
    then have ysne: "?ys \<noteq> []" by (rule mem_nonempty)
    have h2: "hd (sort_key ?cr ?ys) = ?h" using hdM flM by simp
    have rank: "?dv ?h < ?dv (?g (tb ! j)) \<or>
                (?dv ?h = ?dv (?g (tb ! j)) \<and>
                 (?cr ?h < ?cr (tb ! j) \<or> (?cr ?h = ?cr (tb ! j) \<and> fst ?h \<le> j)))"
      if j: "j < length tb" for j
    proof -
      have fj: "fst (tb ! j) = j" using j by (rule table_fst [OF ids])
      have jin: "?g (tb ! j) \<in> set ?M" using j by simp
      have le: "?dv ?h \<le> ?dv (?g (tb ! j))" using Mne jin by (rule hd_sort_key(2))
      show ?thesis
      proof (cases "?dv ?h = ?dv (?g (tb ! j))")
        case False
        with le show ?thesis by simp
      next
        case True
        have jys: "?g (tb ! j) \<in> set ?ys" using j True by simp
        have le2: "?cr (hd (sort_key ?cr ?ys)) \<le> ?cr (?g (tb ! j))"
          using ysne jys by (rule hd_sort_key(2))
        then have le2': "?cr ?h \<le> ?cr (tb ! j)" using h2 by simp
        show ?thesis
        proof (cases "?cr ?h = ?cr (tb ! j)")
          case False
          with le2' True show ?thesis by simp
        next
          case eq: True
          have "hd (filter (\<lambda>y. ?cr y = ?cr (hd (sort_key ?cr ?ys))) ?ys) = hd (sort_key ?cr ?ys)"
            using ysne by (rule hd_sort_key(3))
          then have h3: "hd (filter (\<lambda>y. ?dv y = ?dv ?h \<and> ?cr y = ?cr ?h) ?tb') = ?h"
            by (simp only: h2 filter_filter)
          have "fst (hd (filter (\<lambda>y. ?dv y = ?dv ?h \<and> ?cr y = ?cr ?h) ?tb')) \<le> fst (?g (tb ! j))"
            using srt' j True eq by (intro hd_filter_least) auto
          with h3 fj True eq show ?thesis by simp
        qed
      qed
    qed
    have dvh: "?dv ?h = deviation P t (fst (snd (tb ! fst ?h)))" and crh: "?cr ?h = snd (snd (tb ! fst ?h))"
    proof -
      have "?dv ?h = ?dv (?g (tb ! fst ?h))" by (rule arg_cong [OF hc])
      then show "?dv ?h = deviation P t (fst (snd (tb ! fst ?h)))" by (simp only: fst_conv snd_conv)
      have "?cr ?h = ?cr (?g (tb ! fst ?h))" by (rule arg_cong [OF hc])
      then show "?cr ?h = snd (snd (tb ! fst ?h))" by (simp only: fst_conv snd_conv)
    qed
    have rank': "\<forall>j<length tb.
              deviation P t (fst (snd (tb ! fst ?h))) < deviation P t (fst (snd (tb ! j))) \<or>
              (deviation P t (fst (snd (tb ! fst ?h))) = deviation P t (fst (snd (tb ! j))) \<and>
               (snd (snd (tb ! fst ?h)) < snd (snd (tb ! j)) \<or>
                (snd (snd (tb ! fst ?h)) = snd (snd (tb ! j)) \<and> fst ?h \<le> j)))"
    proof (intro allI impI)
      fix j assume "j < length tb"
      from rank [OF this] show "deviation P t (fst (snd (tb ! fst ?h))) < deviation P t (fst (snd (tb ! j))) \<or>
              (deviation P t (fst (snd (tb ! fst ?h))) = deviation P t (fst (snd (tb ! j))) \<and>
               (snd (snd (tb ! fst ?h)) < snd (snd (tb ! j)) \<or>
                (snd (snd (tb ! fst ?h)) = snd (snd (tb ! j)) \<and> fst ?h \<le> j)))"
        by (simp only: dvh crh fst_conv snd_conv)
    qed
    show ?thesis
      apply (rule exI [of _ "fst ?h"])
      apply (simp only: nex if_False)
      using sel c_lt rank' by blast
  qed
qed




lemma sorts_by_set: "sorts_by P lt \<Longrightarrow> set (std_sort P lt xs) = set xs"
  unfolding sorts_by_def by (metis mset_eq_setD)

lemma sorts_by_length: "sorts_by P lt \<Longrightarrow> length (std_sort P lt xs) = length xs"
  unfolding sorts_by_def by (metis mset_eq_length)

lemma sorts_by_sorted:
  "sorts_by P lt \<Longrightarrow> sorted_wrt (\<lambda>x y. \<not> lt y x) (std_sort P lt xs)"
  unfolding sorts_by_def by (erule allE, erule conjunct2)

lemma select_wall_id_sorted:
  assumes ne: "tb \<noteq> []" and ids: "map fst tb = [0..<length tb]"
    and s1: "sorts_by P by_crosses" and s2: "sorts_by P by_b"
  shows "\<exists>c. select_wall_id P t tb = Inr c \<and> c < length tb \<and>
     (if \<exists>j<length tb. t \<le> fst (snd (tb ! j))
      then t \<le> fst (snd (tb ! c)) \<and>
           (\<forall>j<length tb. t \<le> fst (snd (tb ! j)) \<longrightarrow>
              snd (snd (tb ! c)) \<le> snd (snd (tb ! j)))
      else (\<forall>j<length tb.
              deviation P t (fst (snd (tb ! c))) \<le> deviation P t (fst (snd (tb ! j)))))"
proof -
  let ?P = "\<lambda>e :: entry. t \<le> fst (snd e)"
  let ?L1 = "std_sort P by_crosses tb"
  have P_eq: "(\<lambda>(temp_id, b, crosses). b \<ge> t) = ?P" by (auto simp: fun_eq_iff)
  have set1: "set ?L1 = set tb" using s1 by (rule sorts_by_set)
  have srt1: "sorted_wrt (\<lambda>x y. \<not> by_crosses y x) ?L1" using s1 by (rule sorts_by_sorted)
  show ?thesis
  proof (cases "\<exists>j<length tb. ?P (tb ! j)")
    case True
    then obtain j0 where j0: "j0 < length tb" "?P (tb ! j0)" by blast
    then have "tb ! j0 \<in> set ?L1" by (simp add: set1)
    with j0(2) have "\<exists>x. x \<in> set ?L1 \<and> ?P x" by blast
    then have "List.find ?P ?L1 \<noteq> None" by (simp only: find_None_iff not_not)
    then obtain e where found: "List.find ?P ?L1 = Some e" by blast
    then obtain i where i: "i < length ?L1" "?P (?L1 ! i)" "e = ?L1 ! i"
      and first: "\<forall>k<i. \<not> ?P (?L1 ! k)"
      unfolding find_Some_iff by blast
    have sel: "select_wall_id P t tb = Inr (fst e)"
      unfolding select_wall_id_def P_eq
      by (simp only: found option.case case_prod_beta)
    have e_tb: "e \<in> set tb" using i(1,3) set1 by (metis nth_mem)
    from table_nth [OF ids e_tb] have c_lt: "fst e < length tb" and c_nth: "tb ! fst e = e"
      by blast+
    have Pe: "t \<le> fst (snd e)" using i(2,3) by simp
    have Pc: "t \<le> fst (snd (tb ! fst e))" using Pe by (simp only: c_nth)
    have least: "snd (snd (tb ! fst e)) \<le> snd (snd (tb ! j))"
      if j: "j < length tb" and Pj: "?P (tb ! j)" for j
    proof -
      have "tb ! j \<in> set ?L1" using j by (simp add: set1)
      then obtain k where k: "k < length ?L1" "?L1 ! k = tb ! j" by (auto simp: in_set_conv_nth)
      have "\<not> k < i" using first Pj k(2) by auto
      then consider "k = i" | "i < k" by arith
      then have "snd (snd e) \<le> snd (snd (tb ! j))"
      proof cases
        case 1
        with k(2) i(3) show ?thesis by simp
      next
        case 2
        from srt1 [unfolded sorted_wrt_iff_nth_less] 2 k(1)
        have "\<not> by_crosses (?L1 ! k) (?L1 ! i)" by blast
        then show ?thesis by (simp add: by_crosses_def k(2) i(3))
      qed
      then show ?thesis by (simp only: c_nth)
    qed
    have least': "\<forall>j<length tb. t \<le> fst (snd (tb ! j)) \<longrightarrow>
              snd (snd (tb ! fst e)) \<le> snd (snd (tb ! j))"
      using least by blast
    show ?thesis
      apply (rule exI [of _ "fst e"])
      apply (simp only: True if_True)
      using sel c_lt Pc least' by blast
  next
    case False
    then have none: "\<not> (\<exists>x. x \<in> set ?L1 \<and> ?P x)"
      by (auto simp: set1 in_set_conv_nth)
    then have notfound: "List.find ?P ?L1 = None"
      by (simp only: find_None_iff not_False_eq_True)
    let ?M = "deviations P t ?L1"
    let ?L2 = "std_sort P by_b ?M"
    have set2: "set ?L2 = set ?M" using s2 by (rule sorts_by_set)
    have srt2: "sorted_wrt (\<lambda>x y. \<not> by_b y x) ?L2" using s2 by (rule sorts_by_sorted)
    have len: "length ?L2 = length tb"
      using sorts_by_length [OF s2, of ?M] sorts_by_length [OF s1, of tb]
      by (simp add: deviations_def)
    then have "?L2 \<noteq> []" using ne by auto
    then obtain h rest where hr: "?L2 = h # rest" by (cases ?L2) auto
    have sel: "select_wall_id P t tb = Inr (fst h)"
      unfolding select_wall_id_def P_eq
      by (simp only: notfound hr option.case list.case case_prod_beta)
    have setM: "set ?M = (\<lambda>e. (fst e, deviation P t (fst (snd e)), snd (snd e))) ` set tb"
      by (simp add: deviations_def case_prod_beta set1)
    have "h \<in> set ?L2" by (simp add: hr)
    then have "h \<in> set ?M" by (simp only: set2)
    then obtain e where e: "e \<in> set tb"
      and he: "h = (fst e, deviation P t (fst (snd e)), snd (snd e))"
      unfolding setM by blast
    from table_nth [OF ids e] have c_lt: "fst e < length tb" and c_nth: "tb ! fst e = e"
      by blast+
    have fh: "fst h = fst e" and dh: "fst (snd h) = deviation P t (fst (snd e))"
      by (simp_all add: he)
    have least: "deviation P t (fst (snd (tb ! fst h))) \<le> deviation P t (fst (snd (tb ! j)))"
      if j: "j < length tb" for j
    proof -
      let ?y = "(fst (tb ! j), deviation P t (fst (snd (tb ! j))), snd (snd (tb ! j)))"
      have "?y \<in> set ?M" unfolding setM using j by (metis (no_types, lifting) imageI nth_mem)
      then have "?y \<in> set (h # rest)" by (simp only: set2 [symmetric] hr)
      moreover have "\<forall>y \<in> set rest. \<not> by_b y h" using srt2 by (simp add: hr)
      ultimately have "\<not> by_b ?y h" by (auto simp: by_b_def)
      then have "fst (snd h) \<le> deviation P t (fst (snd (tb ! j)))" by (simp add: by_b_def)
      then show ?thesis by (simp only: dh fh c_nth)
    qed
    have c_lt': "fst h < length tb" using c_lt by (simp only: fh)
    have least': "\<forall>j<length tb.
        deviation P t (fst (snd (tb ! fst h))) \<le> deviation P t (fst (snd (tb ! j)))"
      using least by blast
    show ?thesis
      apply (rule exI [of _ "fst h"])
      apply (simp only: False if_False)
      using sel c_lt' least' by blast
  qed
qed

section \<open>Properties of \<open>build_BSP\<close> and of the spatial adapter\<close>

lemma rtswall_loop_Inr:
  "rtswall_loop walls acc ps = Inr ws \<Longrightarrow>
     ws = acc @ map (new_wall walls) ps \<and>
     (\<forall>p \<in> set ps. 0 \<le> m_parentID p \<and> m_parentID p < int (length walls))"
proof (induction ps arbitrary: acc)
  case Nil
  then show ?case by simp
next
  case (Cons a ps)
  from Cons.prems have r: "0 \<le> m_parentID a \<and> m_parentID a < int (length walls)"
    and l: "rtswall_loop walls (acc @ [new_wall walls a]) ps = Inr ws"
    by (auto split: if_splits)
  from Cons.IH [OF l] r show ?case by simp
qed

lemma rtswall_loop_in_range:
  "\<forall>p \<in> set ps. 0 \<le> m_parentID p \<and> m_parentID p < int (length walls) \<Longrightarrow>
     rtswall_loop walls acc ps = Inr (acc @ map (new_wall walls) ps)"
  by (induction ps arbitrary: acc) auto

lemma construct_rtswall_model_Inr:
  "construct_rtswall_model walls ps = Inr ws \<Longrightarrow>
     ws = map (new_wall walls) ps \<and>
     (\<forall>p \<in> set ps. 0 \<le> m_parentID p \<and> m_parentID p < int (length walls))"
  using rtswall_loop_Inr [of walls "[]" ps ws] by (simp add: construct_rtswall_model_def)

lemma construct_rtswall_model_in_range:
  "\<forall>p \<in> set ps. 0 \<le> m_parentID p \<and> m_parentID p < int (length walls) \<Longrightarrow>
     construct_rtswall_model walls ps = Inr (map (new_wall walls) ps)"
  unfolding construct_rtswall_model_def by (simp add: rtswall_loop_in_range)

lemma parent_id_new_wall [simp]: "parent_id (new_wall walls p) = m_parentID p"
  by (simp add: new_wall_def)

text \<open>
  C2. On the empty input \<open>build_BSP\<close> returns no node and leaves the accumulator as it
  is. On a non-empty input that passes the convexity test (the parent ids being indices
  of \<open>walls\<close>) it returns, without recursion, one node: a leaf whose walls are
  \<open>construct_rtswall_model\<close> of the whole input, one wall per polygon, with no front and
  no back child; these walls are appended to the accumulator.
\<close>

theorem build_BSP_convex_leaf:
  "build_BSP W S P (Suc fuel) walls [] new_walls threshold = Some (Inr (None, new_walls)) \<and>
   (polygons \<noteq> [] \<and> subspace_convex W polygons \<and>
    (\<forall>p \<in> set polygons. 0 \<le> m_parentID p \<and> m_parentID p < int (length walls)) \<longrightarrow>
      construct_rtswall_model walls polygons = Inr (map (new_wall walls) polygons) \<and>
      build_BSP W S P (Suc fuel) walls polygons new_walls threshold =
        Some (Inr (Some (BSPNode (map (new_wall walls) polygons) None None True),
                   new_walls @ map (new_wall walls) polygons)))"
proof (intro conjI impI)
  show "build_BSP W S P (Suc fuel) walls [] new_walls threshold = Some (Inr (None, new_walls))"
    by (simp add: build_BSP.simps)
next
  assume a: "polygons \<noteq> [] \<and> subspace_convex W polygons \<and>
    (\<forall>p \<in> set polygons. 0 \<le> m_parentID p \<and> m_parentID p < int (length walls))"
  then have a1: "polygons \<noteq> []" and a2: "subspace_convex W polygons"
    and a3: "\<forall>p \<in> set polygons. 0 \<le> m_parentID p \<and> m_parentID p < int (length walls)"
    by blast+
  from a3 show c: "construct_rtswall_model walls polygons = Inr (map (new_wall walls) polygons)"
    by (rule construct_rtswall_model_in_range)
  show "build_BSP W S P (Suc fuel) walls polygons new_walls threshold =
        Some (Inr (Some (BSPNode (map (new_wall walls) polygons) None None True),
                   new_walls @ map (new_wall walls) polygons))"
    by (simp only: build_BSP.simps a1 a2 c if_True if_False sum.case)
qed

lemma polygonspatial_loop_eq:
  "polygonspatial_loop acc ws = acc @ map polygon_of_wall (filter enabled ws)"
  by (induction ws arbitrary: acc) auto

lemma split_keeps_parentD:
  "split_keeps_parent S \<Longrightarrow>
     m_parentID ` set (bucket_polys (S p pl bk)) \<subseteq>
       insert (m_parentID p) (m_parentID ` set (bucket_polys bk))"
  unfolding split_keeps_parent_def by (erule allE, erule allE, erule allE)

lemma split_fold_parents:
  assumes "split_keeps_parent S"
  shows "m_parentID ` set (bucket_polys bk) \<subseteq> A \<Longrightarrow>
        (\<forall>i \<in> set js. i \<noteq> wall_id \<longrightarrow> m_parentID (polygons ! i) \<in> A) \<Longrightarrow>
        m_parentID ` set (bucket_polys (fold (\<lambda>i lists. if i = wall_id then lists
                      else S (polygons ! i) pl lists) js bk)) \<subseteq> A"
proof (induction js arbitrary: bk)
  case Nil
  then show ?case by simp
next
  case (Cons i js)
  show ?case
  proof (cases "i = wall_id")
    case True
    with Cons show ?thesis by simp
  next
    case False
    have "m_parentID (polygons ! i) \<in> A" using Cons.prems(2) False by simp
    then have "insert (m_parentID (polygons ! i)) (m_parentID ` set (bucket_polys bk)) \<subseteq> A"
      using Cons.prems(1) by (rule insert_subsetI)
    with split_keeps_parentD [OF assms, of "polygons ! i" pl bk]
    have "m_parentID ` set (bucket_polys (S (polygons ! i) pl bk)) \<subseteq> A"
      by (rule subset_trans)
    moreover have "\<forall>i \<in> set js. i \<noteq> wall_id \<longrightarrow> m_parentID (polygons ! i) \<in> A"
      using Cons.prems(2) by simp
    ultimately have "m_parentID ` set (bucket_polys (fold (\<lambda>i lists. if i = wall_id then lists
                      else S (polygons ! i) pl lists) js (S (polygons ! i) pl bk))) \<subseteq> A"
      by (rule Cons.IH)
    with False show ?thesis by simp
  qed
qed

lemma split_all_parents:
  assumes "split_keeps_parent S"
  shows "m_parentID ` set (bucket_polys (split_all S polygons wall_id)) \<subseteq> m_parentID ` set polygons"
  unfolding split_all_def
proof (rule split_fold_parents [OF assms])
  show "m_parentID ` set (bucket_polys ([], [], [])) \<subseteq> m_parentID ` set polygons"
    by (simp add: bucket_polys_def)
  show "\<forall>i \<in> set [0..<length polygons]. i \<noteq> wall_id \<longrightarrow>
          m_parentID (polygons ! i) \<in> m_parentID ` set polygons"
    by simp
qed

lemma build_BSP_split_cases:
  assumes r: "build_BSP W S P (Suc fuel) walls polygons nw t = Some (Inr (tree, nw'))"
    and ne: "polygons \<noteq> []" and nc: "\<not> subspace_convex W polygons"
  obtains c sw ft bt nw1 nw2 where
    "select_wall_id P t (r_p P (measures W polygons)) = Inr c" "c < length polygons"
    "construct_rtswall_model walls (polygons ! c # fst (snd (split_all S polygons c))) = Inr sw"
    "build_BSP W S P fuel walls (fst (split_all S polygons c)) nw t = Some (Inr (ft, nw1))"
    "build_BSP W S P fuel walls (snd (snd (split_all S polygons c))) nw1 t = Some (Inr (bt, nw2))"
    "tree = Some (BSPNode sw ft bt False)" "nw' = nw2 @ sw"
proof -
  from r ne nc have e: "(case select_wall_id P t (r_p P (measures W polygons)) of
           Inl e \<Rightarrow> Some (Inl e)
         | Inr wall_id \<Rightarrow>
             if \<not> wall_id < length polygons then Some (Inl undefined_access)
             else
             (case split_all S polygons wall_id of
                (above_polys, on_list, below_polys) \<Rightarrow>
                  (case construct_rtswall_model walls (polygons ! wall_id # on_list) of
                     Inl e \<Rightarrow> Some (Inl e)
                   | Inr sortedWalls \<Rightarrow>
                       (case build_BSP W S P fuel walls above_polys nw t of
                          None \<Rightarrow> None
                        | Some (Inl e) \<Rightarrow> Some (Inl e)
                        | Some (Inr (front_tree, new_walls1)) \<Rightarrow>
                            (case build_BSP W S P fuel walls below_polys new_walls1 t of
                               None \<Rightarrow> None
                             | Some (Inl e) \<Rightarrow> Some (Inl e)
                             | Some (Inr (back_tree, new_walls2)) \<Rightarrow>
                                 Some (Inr (Some (BSPNode sortedWalls front_tree back_tree False),
                                            new_walls2 @ sortedWalls))))))) = Some (Inr (tree, nw'))"
    by (simp only: build_BSP.simps if_False)
  obtain c where c: "select_wall_id P t (r_p P (measures W polygons)) = Inr c"
    using e by (cases "select_wall_id P t (r_p P (measures W polygons))") simp_all
  have cl: "c < length polygons"
  proof (rule ccontr)
    assume "\<not> c < length polygons"
    with e c show False by simp
  qed
  obtain ab ol be where sp: "split_all S polygons c = (ab, ol, be)"
    by (cases "split_all S polygons c") auto
  obtain sw where sw: "construct_rtswall_model walls (polygons ! c # ol) = Inr sw"
    using e c cl sp by (cases "construct_rtswall_model walls (polygons ! c # ol)") simp_all
  from e c cl sp sw have e2: "(case build_BSP W S P fuel walls ab nw t of
                          None \<Rightarrow> None
                        | Some (Inl e) \<Rightarrow> Some (Inl e)
                        | Some (Inr (front_tree, new_walls1)) \<Rightarrow>
                            (case build_BSP W S P fuel walls be new_walls1 t of
                               None \<Rightarrow> None
                             | Some (Inl e) \<Rightarrow> Some (Inl e)
                             | Some (Inr (back_tree, new_walls2)) \<Rightarrow>
                                 Some (Inr (Some (BSPNode sw front_tree back_tree False),
                                            new_walls2 @ sw)))) = Some (Inr (tree, nw'))"
    by simp
  obtain ft nw1 where f: "build_BSP W S P fuel walls ab nw t = Some (Inr (ft, nw1))"
  proof (cases "build_BSP W S P fuel walls ab nw t")
    case None
    with e2 show ?thesis by simp
  next
    case (Some x)
    show ?thesis
    proof (cases x)
      case (Inl err)
      with e2 Some show ?thesis by simp
    next
      case (Inr y)
      with Some that show ?thesis by (cases y) simp
    qed
  qed
  from e2 f have e3: "(case build_BSP W S P fuel walls be nw1 t of
                               None \<Rightarrow> None
                             | Some (Inl e) \<Rightarrow> Some (Inl e)
                             | Some (Inr (back_tree, new_walls2)) \<Rightarrow>
                                 Some (Inr (Some (BSPNode sw ft back_tree False),
                                            new_walls2 @ sw))) = Some (Inr (tree, nw'))"
    by simp
  obtain bt nw2 where b: "build_BSP W S P fuel walls be nw1 t = Some (Inr (bt, nw2))"
  proof (cases "build_BSP W S P fuel walls be nw1 t")
    case None
    with e3 show ?thesis by simp
  next
    case (Some x)
    show ?thesis
    proof (cases x)
      case (Inl err)
      with e3 Some show ?thesis by simp
    next
      case (Inr y)
      with Some that show ?thesis by (cases y) simp
    qed
  qed
  have "tree = Some (BSPNode sw ft bt False)" "nw' = nw2 @ sw"
    using e3 b by simp_all
  with c cl sw f b sp that show thesis by simp
qed

lemma parent_id_new_walls:
  "parent_id ` set (map (new_wall walls) ps) = m_parentID ` set ps"
  by (induction ps) auto

lemma fst_tally [simp]: "fst (tally bh fr m) = fst m"
  by (simp add: tally_def case_prod_beta)

lemma fst_fold_tally:
  "fst (fold (\<lambda>j m. if i = j then m else tally (B j) (F j) m) js m0) = fst m0"
  by (induction js arbitrary: m0) auto

lemma map_fst_measures: "map fst (measures W polygons) = [0..<length polygons]"
proof -
  have "map fst (measures W polygons) = map (\<lambda>i. i) [0..<length polygons]"
    unfolding measures_def map_map comp_def by (simp only: fst_fold_tally fst_conv)
  then show ?thesis by simp
qed

lemma map_fst_r_p: "map fst (r_p P ms) = map fst ms"
  by (simp add: r_p_def case_prod_beta comp_def)

lemma table_ids:
  "map fst (r_p P (measures W polygons)) = [0..<length (r_p P (measures W polygons))]"
  "length (r_p P (measures W polygons)) = length polygons"
proof -
  show l: "length (r_p P (measures W polygons)) = length polygons"
    by (simp add: r_p_def measures_def)
  show "map fst (r_p P (measures W polygons)) = [0..<length (r_p P (measures W polygons))]"
    by (simp only: l map_fst_r_p map_fst_measures)
qed

lemma table_nonempty: "polygons \<noteq> [] \<Longrightarrow> r_p P (measures W polygons) \<noteq> []"
  using table_ids(2) [of P W polygons] by (cases "r_p P (measures W polygons)") auto

lemma build_BSP_parents:
  assumes K: "split_keeps_parent S"
  shows "build_BSP W S P fuel walls polygons nw t = Some (Inr (tree, nw')) \<Longrightarrow>
     \<exists>extra. nw' = nw @ extra \<and> parent_id ` set extra \<subseteq> m_parentID ` set polygons \<and>
        (\<forall>n. tree = Some n \<longrightarrow> set (tree_walls n) \<subseteq> set extra)"
proof (induction fuel arbitrary: polygons nw tree nw')
  case 0
  then show ?case by (simp add: build_BSP.simps)
next
  case (Suc fuel)
  show ?case
  proof (cases "polygons = []")
    case True
    with Suc.prems have "tree = None" "nw' = nw" by (simp_all add: build_BSP.simps)
    then show ?thesis by simp
  next
    case ne: False
    show ?thesis
    proof (cases "subspace_convex W polygons")
      case True
      with Suc.prems ne have e: "(case construct_rtswall_model walls polygons of
           Inl e \<Rightarrow> Some (Inl e)
         | Inr leaf_walls \<Rightarrow>
             Some (Inr (Some (BSPNode leaf_walls None None True), nw @ leaf_walls)))
          = Some (Inr (tree, nw'))"
        by (simp only: build_BSP.simps if_True if_False)
      then obtain lw where lw: "construct_rtswall_model walls polygons = Inr lw"
        by (cases "construct_rtswall_model walls polygons") simp_all
      with e have t: "tree = Some (BSPNode lw None None True)" and n: "nw' = nw @ lw" by simp_all
      from construct_rtswall_model_Inr [OF lw] have "lw = map (new_wall walls) polygons" by simp
      then have "parent_id ` set lw \<subseteq> m_parentID ` set polygons"
        by (simp only: parent_id_new_walls subset_refl)
      with t n show ?thesis by simp
    next
      case False
      from Suc.prems ne False obtain c sw ft bt nw1 nw2 where
        c: "select_wall_id P t (r_p P (measures W polygons)) = Inr c"
        and cl: "c < length polygons"
        and sw: "construct_rtswall_model walls (polygons ! c # fst (snd (split_all S polygons c))) = Inr sw"
        and f: "build_BSP W S P fuel walls (fst (split_all S polygons c)) nw t = Some (Inr (ft, nw1))"
        and b: "build_BSP W S P fuel walls (snd (snd (split_all S polygons c))) nw1 t = Some (Inr (bt, nw2))"
        and t: "tree = Some (BSPNode sw ft bt False)" and n: "nw' = nw2 @ sw"
        by (rule build_BSP_split_cases)
      let ?A = "m_parentID ` set polygons"
      let ?sp = "split_all S polygons c"
      have sub: "m_parentID ` set (bucket_polys ?sp) \<subseteq> ?A"
        using K by (rule split_all_parents)
      have subA: "m_parentID ` set (fst ?sp) \<subseteq> ?A"
        and subO: "m_parentID ` set (fst (snd ?sp)) \<subseteq> ?A"
        and subB: "m_parentID ` set (snd (snd ?sp)) \<subseteq> ?A"
        using sub by (auto simp: bucket_polys_def)
      from Suc.IH [OF f] obtain e1 where e1: "nw1 = nw @ e1"
        "parent_id ` set e1 \<subseteq> m_parentID ` set (fst ?sp)"
        "\<forall>n. ft = Some n \<longrightarrow> set (tree_walls n) \<subseteq> set e1" by blast
      from Suc.IH [OF b] obtain e2 where e2: "nw2 = nw1 @ e2"
        "parent_id ` set e2 \<subseteq> m_parentID ` set (snd (snd ?sp))"
        "\<forall>n. bt = Some n \<longrightarrow> set (tree_walls n) \<subseteq> set e2" by blast
      from construct_rtswall_model_Inr [OF sw]
      have sweq: "sw = map (new_wall walls) (polygons ! c # fst (snd ?sp))" by simp
      have psw: "parent_id ` set sw \<subseteq> ?A"
      proof -
        have "parent_id ` set sw = m_parentID ` set (polygons ! c # fst (snd ?sp))"
          unfolding sweq by (rule parent_id_new_walls)
        also have "\<dots> \<subseteq> ?A" using cl subO by auto
        finally show ?thesis .
      qed
      have p1: "parent_id ` set e1 \<subseteq> ?A" using e1(2) subA by (rule subset_trans)
      have p2: "parent_id ` set e2 \<subseteq> ?A" using e2(2) subB by (rule subset_trans)
      have nw'eq: "nw' = nw @ (e1 @ e2 @ sw)" using n e1(1) e2(1) by simp
      have par: "parent_id ` set (e1 @ e2 @ sw) \<subseteq> ?A"
        using p1 p2 psw by (simp add: image_Un)
      have tw: "set (tree_walls (BSPNode sw ft bt False)) \<subseteq> set (e1 @ e2 @ sw)"
      proof -
        have "(case ft of None \<Rightarrow> {} | Some n \<Rightarrow> set (tree_walls n)) \<subseteq> set e1"
          using e1(3) by (cases ft) simp_all
        moreover have "(case bt of None \<Rightarrow> {} | Some n \<Rightarrow> set (tree_walls n)) \<subseteq> set e2"
          using e2(3) by (cases bt) simp_all
        ultimately show ?thesis by (cases ft; cases bt) auto
      qed
      show ?thesis
        apply (rule exI [of _ "e1 @ e2 @ sw"])
        using nw'eq par tw t by simp
    qed
  qed
qed


lemma split_whole_keeps_parent: "split_keeps_parent (split_whole W)"
  unfolding split_keeps_parent_def
proof (intro allI)
  fix p pl and bk :: buckets
  obtain b1 b2 b3 where bk: "bk = (b1, b2, b3)" by (cases bk) auto
  show "m_parentID ` set (bucket_polys (split_whole W p pl bk)) \<subseteq>
          insert (m_parentID p) (m_parentID ` set (bucket_polys bk))"
    by (auto simp: bk split_whole_def bucket_polys_def)
qed

theorem build_BSP_convex_leaf_witness:
  "build_BSP whichSide_exact (split_whole whichSide_exact) small_table_platform 1 facing_room [] [] 1 = Some (Inr (None, [])) \<and>
   construct_polygonspatial_model facing_room \<noteq> [] \<and>
   subspace_convex whichSide_exact (construct_polygonspatial_model facing_room) \<and>
   build_BSP whichSide_exact (split_whole whichSide_exact) small_table_platform 1 facing_room
       (construct_polygonspatial_model facing_room) [] 1 =
     Some (Inr (Some (BSPNode (map (new_wall facing_room) (construct_polygonspatial_model facing_room))
                        None None True),
                [] @ map (new_wall facing_room) (construct_polygonspatial_model facing_room)))"
proof -
  let ?ps = "construct_polygonspatial_model facing_room"
  have h1: "?ps \<noteq> []" by code_simp
  have h2: "subspace_convex whichSide_exact ?ps" by code_simp
  have h3: "\<forall>p \<in> set ?ps. 0 \<le> m_parentID p \<and> m_parentID p < int (length facing_room)"
    by (simp add: construct_polygonspatial_model_def facing_room_def room_wall_def
          fixture_wall_def polygon_of_wall_def)
  from build_BSP_convex_leaf
         [of whichSide_exact "split_whole whichSide_exact" small_table_platform 0 facing_room
             "[]" 1 ?ps]
       h1 h2 h3
  show ?thesis by simp
qed


text \<open>
  C9. \<open>construct_polygonspatial_model\<close> converts exactly the enabled walls, in their
  order. Hence, with a kernel whose split hands on the parent id, every wall \<open>build_BSP\<close>
  appends to the accumulator, and every wall of the tree, carries the id of an enabled
  input wall as its parent id; no produced wall has the parent id of a disabled input wall
  (an id no enabled wall shares).
\<close>

theorem disabled_walls_excluded:
  "construct_polygonspatial_model input = map polygon_of_wall (filter enabled input) \<and>
   (split_keeps_parent S \<and>
    build_BSP W S P fuel walls (construct_polygonspatial_model input) new_walls threshold
      = Some (Inr (tree, new_walls')) \<longrightarrow>
      (\<exists>produced. new_walls' = new_walls @ produced \<and>
         (\<forall>w \<in> set produced. \<exists>v \<in> set input. enabled v \<and> parent_id w = ident v) \<and>
         (\<forall>n. tree = Some n \<longrightarrow> set (tree_walls n) \<subseteq> set produced) \<and>
         (\<forall>v \<in> set input. \<not> enabled v \<and> ident v \<notin> ident ` {u \<in> set input. enabled u} \<longrightarrow>
            (\<forall>w \<in> set produced. parent_id w \<noteq> ident v))))"
proof (intro conjI impI)
  show eq: "construct_polygonspatial_model input = map polygon_of_wall (filter enabled input)"
    by (simp add: construct_polygonspatial_model_def polygonspatial_loop_eq)
  assume a: "split_keeps_parent S \<and>
    build_BSP W S P fuel walls (construct_polygonspatial_model input) new_walls threshold
      = Some (Inr (tree, new_walls'))"
  then have K: "split_keeps_parent S"
    and r: "build_BSP W S P fuel walls (construct_polygonspatial_model input) new_walls threshold
      = Some (Inr (tree, new_walls'))" by blast+
  from build_BSP_parents [OF K r] obtain produced where
    p1: "new_walls' = new_walls @ produced"
    and p2: "parent_id ` set produced \<subseteq> m_parentID ` set (construct_polygonspatial_model input)"
    and p3: "\<forall>n. tree = Some n \<longrightarrow> set (tree_walls n) \<subseteq> set produced"
    by blast
  have ids: "m_parentID ` set (construct_polygonspatial_model input) = ident ` {u \<in> set input. enabled u}"
    unfolding eq by (auto simp: polygon_of_wall_def image_iff)
  have q: "\<forall>w \<in> set produced. \<exists>v \<in> set input. enabled v \<and> parent_id w = ident v"
  proof
    fix w assume "w \<in> set produced"
    then have "parent_id w \<in> ident ` {u \<in> set input. enabled u}" using p2 ids by blast
    then show "\<exists>v \<in> set input. enabled v \<and> parent_id w = ident v" by blast
  qed
  have q2: "\<forall>v \<in> set input. \<not> enabled v \<and> ident v \<notin> ident ` {u \<in> set input. enabled u} \<longrightarrow>
            (\<forall>w \<in> set produced. parent_id w \<noteq> ident v)"
  proof (intro ballI impI)
    fix v w assume "\<not> enabled v \<and> ident v \<notin> ident ` {u \<in> set input. enabled u}" "w \<in> set produced"
    moreover then have "parent_id w \<in> ident ` {u \<in> set input. enabled u}" using p2 ids by blast
    ultimately show "parent_id w \<noteq> ident v" by metis
  qed
  from p1 q p3 q2
  show "\<exists>produced. new_walls' = new_walls @ produced \<and>
         (\<forall>w \<in> set produced. \<exists>v \<in> set input. enabled v \<and> parent_id w = ident v) \<and>
         (\<forall>n. tree = Some n \<longrightarrow> set (tree_walls n) \<subseteq> set produced) \<and>
         (\<forall>v \<in> set input. \<not> enabled v \<and> ident v \<notin> ident ` {u \<in> set input. enabled u} \<longrightarrow>
            (\<forall>w \<in> set produced. parent_id w \<noteq> ident v))"
    by blast
qed

lemma run_parent_ids:
  assumes "map_option (map_sum (\<lambda>e. e) (\<lambda>r. map parent_id (snd r))) x = Some (Inr ys)"
  obtains t nw where "x = Some (Inr (t, nw))" "map parent_id nw = ys"
proof (cases x)
  case None
  with assms show ?thesis by simp
next
  case (Some y)
  show ?thesis
  proof (cases y)
    case (Inl e)
    with assms Some show ?thesis by simp
  next
    case (Inr r)
    with assms Some that show ?thesis by (cases r) simp
  qed
qed

theorem disabled_walls_excluded_witness:
  "split_keeps_parent (split_whole whichSide_exact) \<and>
   construct_polygonspatial_model sealed_room = map polygon_of_wall tie_room \<and>
   (\<exists>tree produced.
      build_BSP whichSide_exact (split_whole whichSide_exact) small_table_platform 3 sealed_room
        (construct_polygonspatial_model sealed_room) [] 1 = Some (Inr (tree, produced)) \<and>
      map parent_id produced = [2, 0, 1] \<and>
      list_all (\<lambda>w. list_ex (\<lambda>v. enabled v \<and> parent_id w = ident v) sealed_room) produced \<and>
      list_all (\<lambda>w. parent_id w \<noteq> 3) produced)"
proof -
  let ?S = "split_whole whichSide_exact"
  have K: "split_keeps_parent ?S" by (rule split_whole_keeps_parent)
  have "map_option (map_sum (\<lambda>e. e) (\<lambda>r. map parent_id (snd r)))
          (build_BSP whichSide_exact ?S small_table_platform 3 sealed_room
             (construct_polygonspatial_model sealed_room) [] 1) = Some (Inr [2, 0, 1])"
    by code_simp
  then obtain tree produced where
    r: "build_BSP whichSide_exact ?S small_table_platform 3 sealed_room
          (construct_polygonspatial_model sealed_room) [] 1 = Some (Inr (tree, produced))"
    and p: "map parent_id produced = [2, 0, 1]"
    by (rule run_parent_ids)
  note T = disabled_walls_excluded
             [of sealed_room ?S whichSide_exact small_table_platform 3 sealed_room "[]" 1
                 tree produced]
  have c: "construct_polygonspatial_model sealed_room = map polygon_of_wall tie_room"
    using T by (simp add: sealed_room_def tie_room_def room_wall_def fixture_wall_def)
  from T K r obtain produced' where
    e: "produced = [] @ produced'"
    and q: "\<forall>w \<in> set produced'. \<exists>v \<in> set sealed_room. enabled v \<and> parent_id w = ident v"
    by blast
  have q': "list_all (\<lambda>w. list_ex (\<lambda>v. enabled v \<and> parent_id w = ident v) sealed_room) produced"
    using e q by (simp add: list_all_iff list_ex_iff)
  have n3: "list_all (\<lambda>w. parent_id w \<noteq> 3) produced"
  proof -
    have "list_all (\<lambda>i. i \<noteq> 3) (map parent_id produced)" by (simp add: p)
    then show ?thesis by (simp add: list_all_iff)
  qed
  show ?thesis
    apply (intro conjI)
      apply (rule K)
     apply (rule c)
    apply (rule exI [of _ tree], rule exI [of _ produced])
    apply (intro conjI r p q' n3)
    done
qed

section \<open>The chosen splitting plane\<close>

text \<open>The insertion sort of the concrete runs gives what \<open>sort_key\<close> gives; it meets the
  contract of \<open>std::sort\<close> and keeps ties.\<close>

lemma insert_by_crosses: "insert_by by_crosses x ys = insort_key (\<lambda>e. snd (snd e)) x ys"
  by (induction ys) (auto simp: by_crosses_def)

lemma insert_by_b: "insert_by by_b x ys = insort_key (\<lambda>e. fst (snd e)) x ys"
  by (induction ys) (auto simp: by_b_def)

lemma insertion_sort_by_crosses:
  "insertion_sort by_crosses xs = sort_key (\<lambda>e. snd (snd e)) xs"
  by (induction xs) (simp_all add: insertion_sort_def insert_by_crosses)

lemma insertion_sort_by_b:
  "insertion_sort by_b xs = sort_key (\<lambda>e. fst (snd e)) xs"
  by (induction xs) (simp_all add: insertion_sort_def insert_by_b)

lemma small_table_sorts:
  "sorts_by small_table_platform by_crosses" "sorts_by small_table_platform by_b"
proof -
  have a: "sorted_wrt (\<lambda>x y. \<not> f y < f x) (sort_key f xs)" for f :: "entry \<Rightarrow> 'k::linorder" and xs
  proof -
    have "sorted (map f (sort_key f xs))" by simp
    then have "sorted_wrt (\<lambda>x y. f x \<le> f y) (sort_key f xs)" by (simp only: sorted_map)
    then show ?thesis by (simp add: not_less)
  qed
  show "sorts_by small_table_platform by_crosses"
    unfolding sorts_by_def small_table_platform_def
    using a [of "\<lambda>e. snd (snd e)"] by (simp add: insertion_sort_by_crosses by_crosses_def)
  show "sorts_by small_table_platform by_b"
    unfolding sorts_by_def small_table_platform_def
    using a [of "\<lambda>e. fst (snd e)"] by (simp add: insertion_sort_by_b by_b_def)
qed

lemma small_table_keeps_ties: "keeps_ties small_table_platform t tb"
  by (simp add: keeps_ties_def small_table_platform_def insertion_sort_by_crosses
        insertion_sort_by_b)


text \<open>
  C1, amended. For a non-empty polygon list, with \<open>std::sort\<close> meeting its contract,
  \<open>build_BSP\<close> chooses a candidate \<open>c\<close>, the root of the subtree when the list is not
  convex (the first wall of the node is the converted polygon \<open>c\<close>, and the node is no
  leaf). If some candidate's balance score is at least the threshold, \<open>c\<close> is such a
  candidate, of least cross-count among them. If none is, \<open>c\<close> is a candidate of least
  deviation \<open>abs(score - threshold)\<close>, as the code computes it. Which of several tied
  candidates is taken is left to \<open>std::sort\<close>. Where its two calls keep tied entries in
  their order, \<open>c\<close> is the first in input order among the qualifying candidates of its
  cross-count; in the fallback it has the least cross-count among the candidates of its
  deviation and is the first in input order among those of its cross-count too.
\<close>

theorem build_BSP_splitter_choice:
  assumes "polygons \<noteq> []" and "sorts_by P by_crosses" and "sorts_by P by_b"
  shows "\<exists>c. select_wall_id P threshold (r_p P (measures W polygons)) = Inr c \<and>
     c < length polygons \<and>
     (if \<exists>j<length polygons. threshold \<le> balance_score W P polygons j
      then threshold \<le> balance_score W P polygons c \<and>
           (\<forall>j<length polygons. threshold \<le> balance_score W P polygons j \<longrightarrow>
              cross_count W P polygons c \<le> cross_count W P polygons j)
      else (\<forall>j<length polygons.
              deviation P threshold (balance_score W P polygons c) \<le>
              deviation P threshold (balance_score W P polygons j))) \<and>
     (keeps_ties P threshold (r_p P (measures W polygons)) \<longrightarrow>
        (if \<exists>j<length polygons. threshold \<le> balance_score W P polygons j
         then (\<forall>j<length polygons.
                 threshold \<le> balance_score W P polygons j \<and>
                 cross_count W P polygons j = cross_count W P polygons c \<longrightarrow> c \<le> j)
         else (\<forall>j<length polygons.
                 deviation P threshold (balance_score W P polygons j) =
                 deviation P threshold (balance_score W P polygons c) \<longrightarrow>
                   cross_count W P polygons c < cross_count W P polygons j \<or>
                   (cross_count W P polygons c = cross_count W P polygons j \<and> c \<le> j)))) \<and>
     (\<forall>S fuel walls new_walls node new_walls'.
        \<not> subspace_convex W polygons \<and>
        build_BSP W S P fuel walls polygons new_walls threshold
          = Some (Inr (Some node, new_walls')) \<longrightarrow>
          \<not> leaf_node node \<and> hd (node_walls node) = new_wall walls (polygons ! c))"
proof -
  let ?tb = "r_p P (measures W polygons)"
  let ?n = "length polygons"
  let ?bs = "\<lambda>j. fst (snd (?tb ! j))"
  let ?cc = "\<lambda>j. snd (snd (?tb ! j))"
  let ?dev = "\<lambda>j. deviation P threshold (fst (snd (?tb ! j)))"
  let ?ex = "\<exists>j<?n. threshold \<le> ?bs j"
  have tne: "?tb \<noteq> []" using assms(1) by (rule table_nonempty)
  have len: "length ?tb = ?n" by (rule table_ids(2))
  from select_wall_id_sorted [OF tne table_ids(1) assms(2) assms(3), of threshold]
  obtain c where sel: "select_wall_id P threshold ?tb = Inr c" and cl0: "c < length ?tb"
    and rank0: "if \<exists>j<length ?tb. threshold \<le> ?bs j
      then threshold \<le> ?bs c \<and> (\<forall>j<length ?tb. threshold \<le> ?bs j \<longrightarrow> ?cc c \<le> ?cc j)
      else (\<forall>j<length ?tb. ?dev c \<le> ?dev j)"
    by blast
  have cl: "c < ?n" using cl0 by (simp only: len)
  have rank: "if ?ex
      then threshold \<le> ?bs c \<and> (\<forall>j<?n. threshold \<le> ?bs j \<longrightarrow> ?cc c \<le> ?cc j)
      else (\<forall>j<?n. ?dev c \<le> ?dev j)"
    using rank0 by (simp only: len)
  have ties: "if ?ex
         then (\<forall>j<?n. threshold \<le> ?bs j \<and> ?cc j = ?cc c \<longrightarrow> c \<le> j)
         else (\<forall>j<?n. ?dev j = ?dev c \<longrightarrow> ?cc c < ?cc j \<or> (?cc c = ?cc j \<and> c \<le> j))"
    if kt: "keeps_ties P threshold ?tb"
  proof -
    from select_wall_id_table [OF tne table_ids(1) kt]
    obtain c' where sel': "select_wall_id P threshold ?tb = Inr c'"
      and rk0: "if \<exists>j<length ?tb. threshold \<le> ?bs j
        then threshold \<le> ?bs c' \<and>
           (\<forall>j<length ?tb. threshold \<le> ?bs j \<longrightarrow>
              ?cc c' < ?cc j \<or> (?cc c' = ?cc j \<and> c' \<le> j))
        else (\<forall>j<length ?tb.
              ?dev c' < ?dev j \<or>
              (?dev c' = ?dev j \<and> (?cc c' < ?cc j \<or> (?cc c' = ?cc j \<and> c' \<le> j))))"
      by blast
    from sel sel' have cc': "c' = c" by simp
    have rk: "if ?ex
        then threshold \<le> ?bs c \<and>
           (\<forall>j<?n. threshold \<le> ?bs j \<longrightarrow> ?cc c < ?cc j \<or> (?cc c = ?cc j \<and> c \<le> j))
        else (\<forall>j<?n. ?dev c < ?dev j \<or>
              (?dev c = ?dev j \<and> (?cc c < ?cc j \<or> (?cc c = ?cc j \<and> c \<le> j))))"
      using rk0 by (simp only: len cc')
    show ?thesis
    proof (cases ?ex)
      case True
      from rk [unfolded if_P [OF True]]
      have a: "\<forall>j<?n. threshold \<le> ?bs j \<longrightarrow> ?cc c < ?cc j \<or> (?cc c = ?cc j \<and> c \<le> j)"
        by (rule conjunct2)
      have "\<forall>j<?n. threshold \<le> ?bs j \<and> ?cc j = ?cc c \<longrightarrow> c \<le> j"
      proof (intro allI impI)
        fix j assume j: "j < ?n" and h: "threshold \<le> ?bs j \<and> ?cc j = ?cc c"
        from a j h have "?cc c < ?cc j \<or> (?cc c = ?cc j \<and> c \<le> j)" by blast
        with h show "c \<le> j" by auto
      qed
      then show ?thesis unfolding if_P [OF True] .
    next
      case False
      from rk [unfolded if_not_P [OF False]]
      have a: "\<forall>j<?n. ?dev c < ?dev j \<or>
              (?dev c = ?dev j \<and> (?cc c < ?cc j \<or> (?cc c = ?cc j \<and> c \<le> j)))" .
      have "\<forall>j<?n. ?dev j = ?dev c \<longrightarrow> ?cc c < ?cc j \<or> (?cc c = ?cc j \<and> c \<le> j)"
      proof (intro allI impI)
        fix j assume j: "j < ?n" and h: "?dev j = ?dev c"
        from a j have "?dev c < ?dev j \<or>
              (?dev c = ?dev j \<and> (?cc c < ?cc j \<or> (?cc c = ?cc j \<and> c \<le> j)))" by blast
        with h show "?cc c < ?cc j \<or> (?cc c = ?cc j \<and> c \<le> j)" by auto
      qed
      then show ?thesis unfolding if_not_P [OF False] .
    qed
  qed
  have root: "\<not> leaf_node node \<and> hd (node_walls node) = new_wall walls (polygons ! c)"
    if nc: "\<not> subspace_convex W polygons"
      and r: "build_BSP W S P fuel walls polygons new_walls threshold
                = Some (Inr (Some node, new_walls'))"
    for S fuel walls new_walls node new_walls'
  proof (cases fuel)
    case 0
    with r show ?thesis by (simp add: build_BSP.simps)
  next
    case (Suc f)
    from r [unfolded Suc] assms(1) nc obtain c' sw ft bt nw1 nw2 where
      c': "select_wall_id P threshold ?tb = Inr c'"
      and sw: "construct_rtswall_model walls (polygons ! c' # fst (snd (split_all S polygons c'))) = Inr sw"
      and t: "Some node = Some (BSPNode sw ft bt False)"
      by (rule build_BSP_split_cases)
    from c' sel have cc: "c' = c" by simp
    from construct_rtswall_model_Inr [OF sw]
    have "sw = map (new_wall walls) (polygons ! c' # fst (snd (split_all S polygons c')))" by simp
    then have "hd sw = new_wall walls (polygons ! c)" by (simp add: cc)
    with t show ?thesis by simp
  qed
  have root': "\<forall>S fuel walls new_walls node new_walls'.
        \<not> subspace_convex W polygons \<and>
        build_BSP W S P fuel walls polygons new_walls threshold
          = Some (Inr (Some node, new_walls')) \<longrightarrow>
          \<not> leaf_node node \<and> hd (node_walls node) = new_wall walls (polygons ! c)"
    using root by blast
  have ties': "keeps_ties P threshold ?tb \<longrightarrow>
        (if ?ex
         then (\<forall>j<?n. threshold \<le> ?bs j \<and> ?cc j = ?cc c \<longrightarrow> c \<le> j)
         else (\<forall>j<?n. ?dev j = ?dev c \<longrightarrow> ?cc c < ?cc j \<or> (?cc c = ?cc j \<and> c \<le> j)))"
    using ties by (rule impI)
  show ?thesis
    unfolding balance_score_def cross_count_def
    apply (rule exI [of _ c])
    apply (intro conjI)
        apply (rule sel)
       apply (rule cl)
      apply (rule rank)
     apply (rule ties')
    apply (rule root')
    done
qed


text \<open>
  Three polygons, not convex, threshold 1, on a platform whose \<open>std::sort\<close> is an insertion
  sort (as it is on three entries): every candidate has balance score 0, so none meets the
  threshold and all have deviation 1. The first candidate in input order is candidate 0;
  the code takes candidate 1, which has fewer crossings, and the root of the tree holds
  the wall of parent id 1.
\<close>

theorem build_BSP_tie_counterexample:
  "\<not> subspace_convex whichSide_exact (construct_polygonspatial_model tie_room) \<and>
   r_p small_table_platform (measures whichSide_exact (construct_polygonspatial_model tie_room)) =
     [(0, 0, 1), (1, 0, 0), (2, 0, 0)] \<and>
   deviations small_table_platform 1
     (r_p small_table_platform (measures whichSide_exact (construct_polygonspatial_model tie_room))) =
     [(0, 1, 1), (1, 1, 0), (2, 1, 0)] \<and>
   select_wall_id small_table_platform 1
     (r_p small_table_platform (measures whichSide_exact (construct_polygonspatial_model tie_room)))
     = Inr 1 \<and>
   map_option (map_sum (\<lambda>e. e) (\<lambda>r. map_option (\<lambda>n. map parent_id (node_walls n)) (fst r)))
     (build_BSP whichSide_exact (split_whole whichSide_exact) small_table_platform 3 tie_room
        (construct_polygonspatial_model tie_room) [] 1) = Some (Inr (Some [1]))"
  by code_simp

lemma run_root:
  assumes "map_option (map_sum (\<lambda>e. e) (\<lambda>r. (map_option (\<lambda>n. ()) (fst r), traverseTree (fst r)))) x
             = Some (Inr (Some (), h))"
  obtains node nw where "x = Some (Inr (Some node, nw))" "traverseTree (Some node) = h"
proof (cases x)
  case None
  with assms show ?thesis by simp
next
  case (Some y)
  show ?thesis
  proof (cases y)
    case (Inl e)
    with assms Some show ?thesis by simp
  next
    case (Inr r)
    obtain t nw where r: "r = (t, nw)" by (cases r) auto
    show ?thesis
    proof (cases t)
      case None
      with assms Some Inr r show ?thesis by simp
    next
      case (Some node)
      with assms \<open>x = Some y\<close> Inr r that show ?thesis by simp
    qed
  qed
qed

theorem build_BSP_splitter_choice_witness:
  "construct_polygonspatial_model crossing_room \<noteq> [] \<and>
   sorts_by small_table_platform by_crosses \<and> sorts_by small_table_platform by_b \<and>
   keeps_ties small_table_platform 1
     (r_p small_table_platform
        (measures whichSide_exact (construct_polygonspatial_model crossing_room))) \<and>
   \<not> subspace_convex whichSide_exact (construct_polygonspatial_model crossing_room) \<and>
   r_p small_table_platform
     (measures whichSide_exact (construct_polygonspatial_model crossing_room)) =
     [(0, 0, 2), (1, 0, 2), (2, 0, 2)] \<and>
   select_wall_id small_table_platform 1
     (r_p small_table_platform
        (measures whichSide_exact (construct_polygonspatial_model crossing_room))) = Inr 0 \<and>
   (\<exists>node nw.
      build_BSP whichSide_exact (split_whole whichSide_exact) small_table_platform 3 crossing_room
        (construct_polygonspatial_model crossing_room) [] 1 = Some (Inr (Some node, nw)) \<and>
      traverseTree (Some node) = 3 \<and> \<not> leaf_node node \<and>
      hd (node_walls node) = new_wall crossing_room (construct_polygonspatial_model crossing_room ! 0))"
proof -
  let ?ps = "construct_polygonspatial_model crossing_room"
  let ?S = "split_whole whichSide_exact"
  let ?P = "small_table_platform"
  have ne: "?ps \<noteq> []" by code_simp
  have s1: "sorts_by ?P by_crosses" and s2: "sorts_by ?P by_b" by (rule small_table_sorts)+
  have kt: "keeps_ties ?P 1 (r_p ?P (measures whichSide_exact ?ps))"
    by (rule small_table_keeps_ties)
  have nc: "\<not> subspace_convex whichSide_exact ?ps" by code_simp
  have tb: "r_p ?P (measures whichSide_exact ?ps) = [(0, 0, 2), (1, 0, 2), (2, 0, 2)]"
    by code_simp
  have "map_option (map_sum (\<lambda>e. e) (\<lambda>r. (map_option (\<lambda>n. ()) (fst r), traverseTree (fst r))))
          (build_BSP whichSide_exact ?S ?P 3 crossing_room ?ps [] 1) = Some (Inr (Some (), 3))"
    by code_simp
  then obtain node nw where
    r: "build_BSP whichSide_exact ?S ?P 3 crossing_room ?ps [] 1 = Some (Inr (Some node, nw))"
    and h: "traverseTree (Some node) = 3"
    by (rule run_root)
  from build_BSP_splitter_choice [OF ne s1 s2, of 1 whichSide_exact] obtain c where
    c: "select_wall_id ?P 1 (r_p ?P (measures whichSide_exact ?ps)) = Inr c"
    and cl: "c < length ?ps"
    and ties: "keeps_ties ?P 1 (r_p ?P (measures whichSide_exact ?ps)) \<longrightarrow>
        (if \<exists>j<length ?ps. 1 \<le> balance_score whichSide_exact ?P ?ps j
         then (\<forall>j<length ?ps.
                 1 \<le> balance_score whichSide_exact ?P ?ps j \<and>
                 cross_count whichSide_exact ?P ?ps j = cross_count whichSide_exact ?P ?ps c \<longrightarrow> c \<le> j)
         else (\<forall>j<length ?ps.
                 deviation ?P 1 (balance_score whichSide_exact ?P ?ps j) =
                 deviation ?P 1 (balance_score whichSide_exact ?P ?ps c) \<longrightarrow>
                   cross_count whichSide_exact ?P ?ps c < cross_count whichSide_exact ?P ?ps j \<or>
                   (cross_count whichSide_exact ?P ?ps c = cross_count whichSide_exact ?P ?ps j \<and> c \<le> j)))"
    and root: "\<forall>S fuel walls new_walls node new_walls'.
        \<not> subspace_convex whichSide_exact ?ps \<and>
        build_BSP whichSide_exact S ?P fuel walls ?ps new_walls 1 = Some (Inr (Some node, new_walls')) \<longrightarrow>
          \<not> leaf_node node \<and> hd (node_walls node) = new_wall walls (?ps ! c)"
    by blast
  have len: "length ?ps = 3" by code_simp
  have bs: "balance_score whichSide_exact ?P ?ps j = 0" if "j < 3" for j
  proof -
    from that have "j = 0 \<or> j = 1 \<or> j = 2" by arith
    then show ?thesis by (auto simp: balance_score_def tb)
  qed
  have cs: "cross_count whichSide_exact ?P ?ps j = 2" if "j < 3" for j
  proof -
    from that have "j = 0 \<or> j = 1 \<or> j = 2" by arith
    then show ?thesis by (auto simp: cross_count_def tb)
  qed
  have nex: "\<not> (\<exists>j<length ?ps. 1 \<le> balance_score whichSide_exact ?P ?ps j)"
    using bs by (auto simp: len)
  from ties kt have A: "\<forall>j<length ?ps.
                 deviation ?P 1 (balance_score whichSide_exact ?P ?ps j) =
                 deviation ?P 1 (balance_score whichSide_exact ?P ?ps c) \<longrightarrow>
                   cross_count whichSide_exact ?P ?ps c < cross_count whichSide_exact ?P ?ps j \<or>
                   (cross_count whichSide_exact ?P ?ps c = cross_count whichSide_exact ?P ?ps j \<and> c \<le> j)"
    unfolding if_not_P [OF nex] by (rule mp)
  have pos: "0 < length ?ps" by (simp add: len)
  from A [THEN spec, of 0, THEN mp, OF pos]
  have "deviation ?P 1 (balance_score whichSide_exact ?P ?ps 0) =
                 deviation ?P 1 (balance_score whichSide_exact ?P ?ps c) \<longrightarrow>
                   cross_count whichSide_exact ?P ?ps c < cross_count whichSide_exact ?P ?ps 0 \<or>
                   (cross_count whichSide_exact ?P ?ps c = cross_count whichSide_exact ?P ?ps 0 \<and> c \<le> 0)" .
  then have c0: "c = 0" using cl by (simp add: len bs cs)
  have sel: "select_wall_id ?P 1 (r_p ?P (measures whichSide_exact ?ps)) = Inr 0"
    using c by (simp only: c0)
  from root nc r have "\<not> leaf_node node \<and> hd (node_walls node) = new_wall crossing_room (?ps ! c)"
    by blast
  then have l: "\<not> leaf_node node" and w: "hd (node_walls node) = new_wall crossing_room (?ps ! 0)"
    by (simp_all add: c0)
  show ?thesis
    apply (intro conjI ne s1 s2 kt nc tb sel)
    apply (rule exI [of _ node], rule exI [of _ nw])
    apply (intro conjI r h l w)
    done
qed

end
